theory Spec2Isabelle
  imports Complex_Main
begin

section \<open>Python values and library functions used by the scripts\<close>

text \<open>
  Strings are Isabelle strings; one \<^typ>\<open>char\<close> stands for one code point of a
  Python \<open>str\<close>, so the development covers text whose code points fit a \<^typ>\<open>char\<close>.
  The scripts only ever compare against ASCII delimiters and keywords.
\<close>

datatype py_error = KeyError | IndexError | TypeError | ValueError | AttributeError

text \<open>\<open>str.isspace\<close> on the code points below 256.\<close>

definition is_space :: "char \<Rightarrow> bool" where
  "is_space c = (c \<in> set [CHR 0x09, CHR 0x0A, CHR 0x0B, CHR 0x0C, CHR 0x0D,
     CHR 0x1C, CHR 0x1D, CHR 0x1E, CHR 0x1F, CHR 0x20, CHR 0x85, CHR 0xA0])"

text \<open>\<open>s.strip()\<close>\<close>

definition strip :: "string \<Rightarrow> string" where
  "strip s = rev (dropWhile is_space (rev (dropWhile is_space s)))"

definition is_digit :: "char \<Rightarrow> bool" where
  "is_digit c = (c \<in> set ''0123456789'')"

definition digit_val :: "char \<Rightarrow> nat" where
  "digit_val c = of_char c - 48"

text \<open>
  The digits of an \<open>int()\<close> literal: decimal digits, single underscores allowed
  between two digits.
\<close>

fun digits_value :: "nat \<Rightarrow> string \<Rightarrow> nat option" where
  "digits_value acc [] = Some acc"
| "digits_value acc (c # cs) =
     (if is_digit c then digits_value (10 * acc + digit_val c) cs
      else if c = CHR ''_'' \<and> cs \<noteq> [] \<and> is_digit (hd cs) then digits_value acc cs
      else None)"

text \<open>
  The interpreter refuses to convert decimal text of more than
  \<open>sys.get_int_max_str_digits()\<close> digits; the default is 4300, and the scripts do not
  change it. Signs, underscores and surrounding whitespace do not count.
\<close>

definition int_max_str_digits :: nat where
  "int_max_str_digits = 4300"

definition int_body :: "string \<Rightarrow> nat option" where
  "int_body s = (case s of [] \<Rightarrow> None
     | c # cs \<Rightarrow>
         if is_digit c then
           (if int_max_str_digits < length (filter is_digit s) then None else digits_value 0 s)
         else None)"

text \<open>
  The whitespace that \<open>int\<close> skips around the number: the ASCII whitespace
  characters and the whitespace code points above 127. Unlike \<open>str.strip\<close>, it does not
  skip the separators \<open>0x1C\<close> to \<open>0x1F\<close>.
\<close>

definition is_int_space :: "char \<Rightarrow> bool" where
  "is_int_space c = (c \<in> set [CHR 0x09, CHR 0x0A, CHR 0x0B, CHR 0x0C, CHR 0x0D,
     CHR 0x20, CHR 0x85, CHR 0xA0])"

definition int_strip :: "string \<Rightarrow> string" where
  "int_strip s = rev (dropWhile is_int_space (rev (dropWhile is_int_space s)))"

text \<open>
  \<open>int(s)\<close> for a string: surrounding whitespace is skipped, one sign is allowed.
  \<open>None\<close> stands for the \<open>ValueError\<close> that \<open>int\<close> raises on any other text and
  on text with too many digits.
\<close>

definition py_int :: "string \<Rightarrow> int option" where
  "py_int s = (case int_strip s of
       [] \<Rightarrow> None
     | c # cs \<Rightarrow>
         if c = CHR ''-'' then map_option (\<lambda>n. - int n) (int_body cs)
         else if c = CHR ''+'' then map_option int (int_body cs)
         else map_option int (int_body (c # cs)))"

text \<open>\<open>s.split(c)\<close> for a one-character separator: always at least one part.\<close>

fun split_on :: "char \<Rightarrow> string \<Rightarrow> string list" where
  "split_on c [] = [[]]"
| "split_on c (x # xs) =
     (if x = c then [] # split_on c xs
      else (case split_on c xs of
              [] \<Rightarrow> [[x]]
            | p # ps \<Rightarrow> (x # p) # ps))"

text \<open>\<open>s.find(c)\<close> when \<open>c\<close> occurs in \<open>s\<close>: the index of its first occurrence.\<close>

definition find_char :: "char \<Rightarrow> string \<Rightarrow> nat" where
  "find_char c s = length (takeWhile (\<lambda>x. x \<noteq> c) s)"

text \<open>\<open>s[a:b]\<close> for non-negative bounds.\<close>

definition slice :: "nat \<Rightarrow> nat \<Rightarrow> 'a list \<Rightarrow> 'a list" where
  "slice a b s = take (b - a) (drop a s)"

text \<open>\<open>s.startswith(p)\<close> and \<open>s.endswith(p)\<close>\<close>

definition startswith :: "string \<Rightarrow> string \<Rightarrow> bool" where
  "startswith s p = (take (length p) s = p)"

definition endswith :: "string \<Rightarrow> string \<Rightarrow> bool" where
  "endswith s p = (length p \<le> length s \<and> drop (length s - length p) s = p)"

subsection \<open>Nested documents\<close>

text \<open>
  A document is what \<open>json.load\<close> returns, mutated in place by the scripts. Mapping keys
  loaded from JSON are strings; \<open>update_nested_field\<close> can add an integer key
  (\<open>ref[field][idx] = new_value\<close> on a mapping), so keys are strings or integers.
  A mapping is an association list in insertion order whose keys are distinct.
  The payload of a number is never inspected.
\<close>

datatype key = KStr string | KInt int

datatype json =
    JNull
  | JBool bool
  | JInt int
  | JFloat real
  | JStr string
  | JList "json list"
  | JDict "(key \<times> json) list"

text \<open>\<open>d[k] = v\<close> on a mapping: replace in place, or append a new key.\<close>

fun dict_set :: "('k \<times> 'v) list \<Rightarrow> 'k \<Rightarrow> 'v \<Rightarrow> ('k \<times> 'v) list" where
  "dict_set [] k v = [(k, v)]"
| "dict_set ((k', v') # d) k v =
     (if k' = k then (k', v) # d else (k', v') # dict_set d k v)"

text \<open>A sequence index: negative indices count from the end.\<close>

definition py_index :: "nat \<Rightarrow> int \<Rightarrow> nat option" where
  "py_index n i =
     (let j = (if i < 0 then int n + i else i)
      in if 0 \<le> j \<and> j < int n then Some (nat j) else None)"

text \<open>\<open>ref[k]\<close> as an expression.\<close>

fun getitem :: "json \<Rightarrow> key \<Rightarrow> py_error + json" where
  "getitem (JDict d) k = (case map_of d k of None \<Rightarrow> Inl KeyError | Some v \<Rightarrow> Inr v)"
| "getitem (JList xs) (KInt i) =
     (case py_index (length xs) i of None \<Rightarrow> Inl IndexError | Some j \<Rightarrow> Inr (xs ! j))"
| "getitem (JList xs) (KStr s) = Inl TypeError"
| "getitem (JStr t) (KInt i) =
     (case py_index (length t) i of None \<Rightarrow> Inl IndexError | Some j \<Rightarrow> Inr (JStr [t ! j]))"
| "getitem (JStr t) (KStr s) = Inl TypeError"
| "getitem _ _ = Inl TypeError"

text \<open>\<open>ref[k] = v\<close>: the container after the assignment.\<close>

fun setitem :: "json \<Rightarrow> key \<Rightarrow> json \<Rightarrow> py_error + json" where
  "setitem (JDict d) k v = Inr (JDict (dict_set d k v))"
| "setitem (JList xs) (KInt i) v =
     (case py_index (length xs) i of None \<Rightarrow> Inl IndexError
      | Some j \<Rightarrow> Inr (JList (xs[j := v])))"
| "setitem (JList xs) (KStr s) v = Inl TypeError"
| "setitem _ _ _ = Inl TypeError"

text \<open>
  The container \<open>ref\<close> after the object it holds under \<open>k\<close> has been mutated into
  \<open>child\<close>. A character read out of a string is a fresh object, so nothing is written
  back there.
\<close>

fun put_back :: "json \<Rightarrow> key \<Rightarrow> json \<Rightarrow> json" where
  "put_back (JDict d) k child = JDict (dict_set d k child)"
| "put_back (JList xs) (KInt i) child =
     (case py_index (length xs) i of None \<Rightarrow> JList xs | Some j \<Rightarrow> JList (xs[j := child]))"
| "put_back ref _ _ = ref"

section \<open>Path Addressing: \<open>update_nested_field\<close> (scripts/update-content.py)\<close>

text \<open>\<open>"[" in p and "]" in p\<close>\<close>

definition has_brackets :: "string \<Rightarrow> bool" where
  "has_brackets p = (CHR ''['' \<in> set p \<and> CHR '']'' \<in> set p)"

text \<open>\<open>p.split("[")[0]\<close>\<close>

definition bracket_field :: "string \<Rightarrow> string" where
  "bracket_field p = takeWhile (\<lambda>x. x \<noteq> CHR ''['') p"

text \<open>\<open>p[p.find("[") + 1 : p.find("]")]\<close>\<close>

definition bracket_text :: "string \<Rightarrow> string" where
  "bracket_text p = slice (find_char CHR ''['' p + 1) (find_char CHR '']'' p) p"

text \<open>\<open>int(p[p.find("[") + 1 : p.find("]")])\<close>\<close>

definition bracket_index :: "string \<Rightarrow> py_error + int" where
  "bracket_index p = (case py_int (bracket_text p) of None \<Rightarrow> Inl ValueError | Some i \<Rightarrow> Inr i)"

text \<open>The body of the loop over \<open>parts[:-1]\<close>: the new \<open>ref\<close>.\<close>

definition resolve_part :: "json \<Rightarrow> string \<Rightarrow> py_error + json" where
  "resolve_part ref p =
     (if has_brackets p then
        (case bracket_index p of Inl e \<Rightarrow> Inl e | Inr idx \<Rightarrow>
          (case getitem ref (KStr (bracket_field p)) of Inl e \<Rightarrow> Inl e | Inr c \<Rightarrow>
             getitem c (KInt idx)))
      else getitem ref (KStr p))"

text \<open>The assignment through the last part: \<open>ref\<close> after it.\<close>

definition assign_part :: "json \<Rightarrow> string \<Rightarrow> json \<Rightarrow> py_error + json" where
  "assign_part ref p v =
     (if has_brackets p then
        (case bracket_index p of Inl e \<Rightarrow> Inl e | Inr idx \<Rightarrow>
          (case getitem ref (KStr (bracket_field p)) of Inl e \<Rightarrow> Inl e | Inr c \<Rightarrow>
            (case setitem c (KInt idx) v of Inl e \<Rightarrow> Inl e | Inr c' \<Rightarrow>
               Inr (put_back ref (KStr (bracket_field p)) c'))))
      else setitem ref (KStr p) v)"

text \<open>\<open>ref\<close> after the object reached through part \<open>p\<close> has been mutated into \<open>r'\<close>.\<close>

definition put_part :: "json \<Rightarrow> string \<Rightarrow> json \<Rightarrow> json" where
  "put_part ref p r' =
     (if has_brackets p then
        (case bracket_index p of Inl e \<Rightarrow> ref | Inr idx \<Rightarrow>
          (case getitem ref (KStr (bracket_field p)) of Inl e \<Rightarrow> ref | Inr c \<Rightarrow>
             put_back ref (KStr (bracket_field p)) (put_back c (KInt idx) r')))
      else put_back ref (KStr p) r')"

text \<open>
  The \<open>try\<close> block: walk all parts but the last, then assign through the last one. The
  result is the document after the in-place mutation, or the exception raised.
\<close>

fun update_parts :: "json \<Rightarrow> string list \<Rightarrow> json \<Rightarrow> py_error + json" where
  "update_parts ref [] v = Inl IndexError"
| "update_parts ref [p] v = assign_part ref p v"
| "update_parts ref (p # q # ps) v =
     (case resolve_part ref p of Inl e \<Rightarrow> Inl e | Inr r \<Rightarrow>
       (case update_parts r (q # ps) v of Inl e \<Rightarrow> Inl e | Inr r' \<Rightarrow>
          Inr (put_part ref p r')))"

text \<open>
  \<open>update_nested_field(data_obj, key_path, new_value)\<close>: the returned flag with the
  document as it is afterwards, or the exception that \<open>except (KeyError, IndexError,
  TypeError)\<close> lets through.
\<close>

definition update_nested_field :: "json \<Rightarrow> string \<Rightarrow> json \<Rightarrow> py_error + (bool \<times> json)" where
  "update_nested_field data_obj key_path new_value =
     (case update_parts data_obj (split_on CHR ''.'' key_path) new_value of
        Inr d' \<Rightarrow> Inr (True, d')
      | Inl e \<Rightarrow>
          if e = KeyError \<or> e = IndexError \<or> e = TypeError then Inr (False, data_obj)
          else Inl e)"

text \<open>Decimal digits, at least one.\<close>

definition digit_text :: "string \<Rightarrow> bool" where
  "digit_text s = (s \<noteq> [] \<and> list_all is_digit s)"

text \<open>
  Decimal-integer text that the interpreter converts: decimal digits, with an optional sign
  in front, and no more digits than \<open>int_max_str_digits\<close>.
\<close>

definition decimal_text :: "string \<Rightarrow> bool" where
  "decimal_text s = (case s of
       [] \<Rightarrow> False
     | c # cs \<Rightarrow>
         if c = CHR ''-'' \<or> c = CHR ''+'' then digit_text cs \<and> length cs \<le> int_max_str_digits
         else digit_text (c # cs) \<and> length (c # cs) \<le> int_max_str_digits)"

text \<open>Every bracketed part of a path encloses decimal-integer text.\<close>

definition integer_brackets :: "string \<Rightarrow> bool" where
  "integer_brackets key_path =
     list_all (\<lambda>p. \<not> has_brackets p \<or> decimal_text (bracket_text p)) (split_on CHR ''.'' key_path)"

section \<open>Payload Reinjection (scripts/update-content.py)\<close>


text \<open>\<open>clean_path = key[5:] if key.startswith("root.") else key\<close>\<close>

definition clean_path :: "string \<Rightarrow> string" where
  "clean_path key = (if startswith key ''root.'' then drop 5 key else key)"

text \<open>
  The loop over \<open>translations.items()\<close>: the page as mutated, the counter \<open>updated\<close>
  and the list \<open>not_found\<close>; or the exception that ends the script.
\<close>

fun apply_translations ::
  "json \<Rightarrow> (string \<times> json) list \<Rightarrow> nat \<Rightarrow> string list \<Rightarrow> py_error + (json \<times> nat \<times> string list)" where
  "apply_translations page_data [] updated not_found = Inr (page_data, updated, not_found)"
| "apply_translations page_data ((key, translated_text) # rest) updated not_found =
     (case update_nested_field page_data (clean_path key) translated_text of
        Inl e \<Rightarrow> Inl e
      | Inr (success, page_data') \<Rightarrow>
          if success then apply_translations page_data' rest (updated + 1) not_found
          else apply_translations page_data' rest updated (not_found @ [clean_path key]))"


section \<open>Field Extractor: \<open>extract_text_fields\<close> (scripts/get-content.py)\<close>

text \<open>
  \<open>s.lower()\<close>, one code point at a time: the capital letters below 256 and their
  small forms.
\<close>

definition lower_char :: "char \<Rightarrow> char" where
  "lower_char c =
     (let n = (of_char c :: nat)
      in if (65 \<le> n \<and> n \<le> 90) \<or> (192 \<le> n \<and> n \<le> 222 \<and> n \<noteq> 215) then char_of (n + 32)
         else c)"

definition lower :: "string \<Rightarrow> string" where
  "lower s = map lower_char s"

text \<open>\<open>kw in s\<close> for strings: \<open>kw\<close> occurs in \<open>s\<close> as a contiguous run.\<close>

fun contains :: "string \<Rightarrow> string \<Rightarrow> bool" where
  "contains [] kw = (kw = [])"
| "contains (x # xs) kw = (startswith (x # xs) kw \<or> contains xs kw)"

text \<open>\<open>str(n)\<close> for a non-negative integer, and for any integer.\<close>

definition digit_char :: "nat \<Rightarrow> char" where
  "digit_char d = ''0123456789'' ! d"

fun str_nat :: "nat \<Rightarrow> string" where
  "str_nat n = (if n < 10 then [digit_char n] else str_nat (n div 10) @ [digit_char (n mod 10)])"

declare str_nat.simps [simp del]

definition str_int :: "int \<Rightarrow> string" where
  "str_int i = (if i < 0 then CHR ''-'' # str_nat (nat (- i)) else str_nat (nat i))"

text \<open>A key inside an f-string, and \<open>key.lower()\<close> (an integer has no such method).\<close>

fun key_str :: "key \<Rightarrow> string" where
  "key_str (KStr s) = s"
| "key_str (KInt i) = str_int i"

fun key_lower :: "key \<Rightarrow> py_error + string" where
  "key_lower (KStr s) = Inr (lower s)"
| "key_lower (KInt i) = Inl AttributeError"

definition text_keywords :: "string list" where
  "text_keywords = [''text'', ''heading'', ''title'', ''label'', ''content'', ''value'',
     ''placeholder'', ''caption'', ''alt'', ''description'']"

definition excluded_keywords :: "string list" where
  "excluded_keywords = [''script'', ''style'', ''css'', ''path'']"

text \<open>\<open>isinstance(value, (dict, list))\<close>\<close>

fun is_container :: "json \<Rightarrow> bool" where
  "is_container (JDict d) = True"
| "is_container (JList xs) = True"
| "is_container _ = False"

text \<open>
  The flat mapping is a mapping from paths to text, in insertion order.
  \<open>extract_text_fields(obj, path, result)\<close> returns \<open>result\<close> as mutated;
  \<open>extract_items\<close> is its loop over \<open>obj.items()\<close> and \<open>extract_elems\<close> its loop over
  \<open>enumerate(obj)\<close>, from index \<open>i\<close> on.
\<close>

type_synonym flat = "(string \<times> string) list"

fun extract_text_fields :: "json \<Rightarrow> string \<Rightarrow> flat \<Rightarrow> py_error + flat"
  and extract_items :: "(key \<times> json) list \<Rightarrow> string \<Rightarrow> flat \<Rightarrow> py_error + flat"
  and extract_elems :: "json list \<Rightarrow> nat \<Rightarrow> string \<Rightarrow> flat \<Rightarrow> py_error + flat" where
  "extract_text_fields (JDict d) path result = extract_items d path result"
| "extract_text_fields (JList xs) path result = extract_elems xs 0 path result"
| "extract_text_fields JNull path result = Inr result"
| "extract_text_fields (JBool b) path result = Inr result"
| "extract_text_fields (JInt n) path result = Inr result"
| "extract_text_fields (JFloat x) path result = Inr result"
| "extract_text_fields (JStr s) path result = Inr result"
| "extract_items [] path result = Inr result"
| "extract_items ((key, value) # rest) path result =
     (if is_container value then
        (case extract_text_fields value (path @ ''.'' @ key_str key) result of
           Inl e \<Rightarrow> Inl e
         | Inr result' \<Rightarrow> extract_items rest path result')
      else
        (case value of
           JStr s \<Rightarrow>
             (case key_lower key of
                Inl e \<Rightarrow> Inl e
              | Inr lk \<Rightarrow>
                  if list_ex (contains lk) text_keywords
                     \<and> \<not> list_ex (contains lk) excluded_keywords
                     \<and> strip s \<noteq> []
                  then extract_items rest path (dict_set result (path @ ''.'' @ key_str key) s)
                  else extract_items rest path result)
         | _ \<Rightarrow> extract_items rest path result))"
| "extract_elems [] i path result = Inr result"
| "extract_elems (item # rest) i path result =
     (case extract_text_fields item (path @ ''['' @ str_nat i @ '']'') result of
        Inl e \<Rightarrow> Inl e
      | Inr result' \<Rightarrow> extract_elems rest (Suc i) path result')"

text \<open>\<open>translatable_fields = extract_text_fields(page_data)\<close>\<close>

definition extract_page :: "json \<Rightarrow> py_error + flat" where
  "extract_page page_data = extract_text_fields page_data ''root'' []"

text \<open>
  The value that the assignment target of \<open>update_nested_field\<close> denotes: the loop body
  of its walk applied to every part of the path, the last one included.
\<close>

fun walk :: "json \<Rightarrow> string list \<Rightarrow> py_error + json" where
  "walk ref [] = Inr ref"
| "walk ref (p # ps) = (case resolve_part ref p of Inl e \<Rightarrow> Inl e | Inr r \<Rightarrow> walk r ps)"

definition read_nested_field :: "json \<Rightarrow> string \<Rightarrow> py_error + json" where
  "read_nested_field data_obj key_path = walk data_obj (split_on CHR ''.'' key_path)"

text \<open>
  Documents whose paths can be read back: every mapping has distinct string keys free of
  the path delimiters \<open>.\<close>, \<open>[\<close> and \<open>]\<close>, and no sequence is an element of a sequence.
  A sequence has at most \<open>10 ^ 4300\<close> elements, so that each of its indices is written
  with at most 4300 digits, the most that \<open>int()\<close> reads back (a list of the interpreter
  is shorter by far).
\<close>

fun safe_key :: "key \<Rightarrow> bool" where
  "safe_key (KStr s) = (CHR ''.'' \<notin> set s \<and> CHR ''['' \<notin> set s \<and> CHR '']'' \<notin> set s)"
| "safe_key (KInt i) = False"

fun is_list :: "json \<Rightarrow> bool" where
  "is_list (JList xs) = True"
| "is_list _ = False"

fun addressable :: "json \<Rightarrow> bool" where
  "addressable (JDict d) =
     (distinct (map fst d) \<and> (\<forall>kv \<in> set d. safe_key (fst kv) \<and> addressable (snd kv)))"
| "addressable (JList xs) =
     (length xs \<le> 10 ^ int_max_str_digits
      \<and> (\<forall>x \<in> set xs. \<not> is_list x \<and> addressable x))"
| "addressable _ = True"

text \<open>\<open>isinstance(value, str)\<close>\<close>

fun is_str :: "json \<Rightarrow> bool" where
  "is_str (JStr t) = True"
| "is_str _ = False"

section \<open>Translation Checkpoint Loop (scripts/gpt-translate.py, scripts/translate.py)\<close>

subsection \<open>Helpers\<close>

text \<open>
  \<open>is_exact_dynamic_row_pattern(key)\<close>:
  \<open>re.search(r"\.rows\[\d+\]\.0\.rows\[0\]\.0\.label$", key)\<close>.
  \<open>ends_dynamic_row\<close> says that the text ends with \<open>.rows[\<close>, one or more digits and
  \<open>].0.rows[0].0.label\<close>; the digits are the whole run of digits in front of the closing
  bracket, since \<open>[\<close> must stand before them. \<open>$\<close> matches at the end of the key and
  also just before a newline that ends it.
\<close>

definition ends_dynamic_row :: "string \<Rightarrow> bool" where
  "ends_dynamic_row s =
     (endswith s ''].0.rows[0].0.label'' \<and>
      (let pre = take (length s - length ''].0.rows[0].0.label'') s;
           digits = rev (takeWhile is_digit (rev pre));
           front = take (length pre - length digits) pre
       in digits \<noteq> [] \<and> endswith front ''.rows[''))"

definition is_exact_dynamic_row_pattern :: "string \<Rightarrow> bool" where
  "is_exact_dynamic_row_pattern key =
     (ends_dynamic_row key \<or> (key \<noteq> [] \<and> last key = CHR 0x0A \<and> ends_dynamic_row (butlast key)))"

text \<open>\<open>value.strip().lower().startswith("lorem ipsum")\<close>\<close>

definition is_placeholder_text :: "string \<Rightarrow> bool" where
  "is_placeholder_text value = startswith (lower (strip value)) ''lorem ipsum''"

definition is_content_type_key :: "string \<Rightarrow> bool" where
  "is_content_type_key key = endswith key ''.content_type''"

definition is_dnd_area_label_key :: "string \<Rightarrow> bool" where
  "is_dnd_area_label_key key = endswith key ''dnd_area.label''"

definition is_rows_label_key :: "string \<Rightarrow> bool" where
  "is_rows_label_key key = endswith key ''0.rows[0].0.label''"

text \<open>
  \<open>clean_gpt_output\<close> and \<open>clean_gemini_output\<close> (the same body): an opening code fence
  with its language tag and one newline is removed from the front, a closing fence from
  the end.
\<close>

definition is_ascii_letter :: "char \<Rightarrow> bool" where
  "is_ascii_letter c =
     (let n = (of_char c :: nat) in (65 \<le> n \<and> n \<le> 90) \<or> (97 \<le> n \<and> n \<le> 122))"

text \<open>\<open>re.sub(r"^```[a-zA-Z]*\n?", "", s)\<close>\<close>

definition strip_fence_open :: "string \<Rightarrow> string" where
  "strip_fence_open s =
     (if startswith s ''```'' then
        (case dropWhile is_ascii_letter (drop 3 s) of
           [] \<Rightarrow> []
         | c # r \<Rightarrow> if c = CHR 0x0A then r else c # r)
      else s)"

text \<open>\<open>re.sub(r"```$", "", s)\<close> for text that does not end with a newline.\<close>

definition strip_fence_close :: "string \<Rightarrow> string" where
  "strip_fence_close s = (if endswith s ''```'' then take (length s - 3) s else s)"

definition clean_output :: "string \<Rightarrow> string" where
  "clean_output text =
     (if text = [] then text
      else strip (strip_fence_close (strip (strip_fence_open (strip text)))))"

text \<open>The prompts; \<open>SOURCE_LANG = "English"\<close>, \<open>TARGET_LANG = "Thai"\<close>.\<close>

definition gpt_prompt :: "string \<Rightarrow> string" where
  "gpt_prompt value =
     ''Translate the following English text to Thai. Requirements:'' @ [CHR 0x0A] @
     ''1. Use natural, professional, and easy-to-understand tone for business audience'' @ [CHR 0x0A] @
     ''2. Make it sound human and polished, aligned with HR/technology context'' @ [CHR 0x0A] @
     ''3. Maintain clarity, smooth flow, and correct technical meaning'' @ [CHR 0x0A] @
     ''4. Avoid robotic language'' @ [CHR 0x0A] @
     ''5. Output ONLY the Thai translation, nothing else'' @ [CHR 0x0A] @
     ''6. IMPORTANT: Keep all HTML tags exactly as they are in the original text'' @ [CHR 0x0A] @
     ''7. Do NOT remove, add, or modify any HTML tags (<br>, <strong>, <p>, <h1>, <h2>, <h3>, <h4>, <div>, <span>, etc.)'' @ [CHR 0x0A] @
     ''8. Translate only the text content inside and between the HTML tags'' @ [CHR 0x0A] @
     ''9. Preserve all attributes, styles, and structure of HTML tags'' @ [CHR 0x0A, CHR 0x0A] @
     value"

definition gemini_prompt :: "string \<Rightarrow> string" where
  "gemini_prompt value =
     ''You are a professional website translator. '' @
     ''Translate the following text from English to Thai. '' @
     ''Preserve HTML tags, formatting, and tone. '' @
     ''Use natural, concise language suitable for a business website.'' @ [CHR 0x0A, CHR 0x0A] @
     ''TEXT:'' @ [CHR 0x0A] @ value"

subsection \<open>State and effects\<close>

text \<open>
  The translated-mapping file on disk: absent, present but not parsable as JSON (an empty
  or cut-off file is such), or holding a mapping.
\<close>

datatype disk_file = Absent | Unparsable | Stored flat

text \<open>
  What the external translation service does with one request: the call raises (or the
  response has no usable text object), or it returns the text of the response.
\<close>

datatype reply = Raises | Reply string

text \<open>
  The state of one run: the in-memory mapping \<open>translated_content\<close>, the
  translated-mapping file, the backup copy made at the start, the external calls issued so
  far (key and value of the entry, in order) and the counter \<open>translated_count\<close>.
\<close>

record run_state =
  translated_content :: flat
  stored :: disk_file
  backup :: disk_file
  calls :: "(string \<times> string) list"
  translated_count :: nat

text \<open>What the chain of checks at the head of the loop body comes to for one entry.\<close>

datatype action = Skip | Copy | Translate

text \<open>gpt-translate.py, lines 131 to 167, in the order of the checks.\<close>

definition gpt_decide :: "flat \<Rightarrow> string \<Rightarrow> string \<Rightarrow> action" where
  "gpt_decide translated key value =
     (if key \<in> set (map fst translated) then Skip
      else if is_placeholder_text value then Skip
      else if is_dnd_area_label_key key then Copy
      else if is_rows_label_key key then Copy
      else if is_exact_dynamic_row_pattern key then Skip
      else if is_content_type_key key then Copy
      else Translate)"

text \<open>translate.py, lines 123 to 142, in the order of the checks.\<close>

definition gemini_decide :: "flat \<Rightarrow> string \<Rightarrow> string \<Rightarrow> action" where
  "gemini_decide translated key value =
     (if key \<in> set (map fst translated) then Skip
      else if is_exact_dynamic_row_pattern key then Skip
      else if is_placeholder_text value then Skip
      else if is_content_type_key key then Copy
      else Translate)"

text \<open>
  \<open>with open(translated_path, "w", encoding="utf-8") as f: json.dump(translated_content, f,
  ...)\<close> is two effects. Opening for writing empties the file; until the dump has run to
  its end the file does not parse. The completed dump leaves the whole mapping in it.
\<close>

definition open_for_write :: "run_state \<Rightarrow> run_state" where
  "open_for_write s = s\<lparr>stored := Unparsable\<rparr>"

definition json_dump :: "run_state \<Rightarrow> run_state" where
  "json_dump s = s\<lparr>stored := Stored (translated_content s)\<rparr>"

definition persist :: "run_state \<Rightarrow> run_state" where
  "persist s = json_dump (open_for_write s)"

text \<open>The states that one such write passes through, in order.\<close>

definition persist_steps :: "run_state \<Rightarrow> run_state list" where
  "persist_steps s = [open_for_write s, json_dump (open_for_write s)]"

text \<open>A pass-through copy: \<open>translated_content[key] = value\<close>, then the file is rewritten.\<close>

definition copy_entry :: "string \<Rightarrow> string \<Rightarrow> run_state \<Rightarrow> run_state" where
  "copy_entry key value s =
     persist (s\<lparr>translated_content := dict_set (translated_content s) key value\<rparr>)"

text \<open>
  One iteration of the loop. \<open>translate n prompt\<close> is the outcome of the external call
  that is issued when \<open>n\<close> calls have been issued before it in this run.
\<close>

definition process_entry ::
  "(flat \<Rightarrow> string \<Rightarrow> string \<Rightarrow> action) \<Rightarrow> (string \<Rightarrow> string) \<Rightarrow> (nat \<Rightarrow> string \<Rightarrow> reply)
   \<Rightarrow> string \<times> string \<Rightarrow> run_state \<Rightarrow> run_state" where
  "process_entry decide prompt translate entry s =
     (case entry of (key, value) \<Rightarrow>
       (case decide (translated_content s) key value of
          Skip \<Rightarrow> s
        | Copy \<Rightarrow> copy_entry key value s
        | Translate \<Rightarrow>
            (let s1 = s\<lparr>calls := calls s @ [(key, value)]\<rparr>
             in case translate (length (calls s)) (prompt value) of
                  Raises \<Rightarrow> s1
                | Reply text \<Rightarrow>
                    (let translated_text = clean_output (strip text)
                     in if translated_text = [] then s1
                        else persist (s1\<lparr>translated_content :=
                                           dict_set (translated_content s1) key translated_text,
                                         translated_count := translated_count s1 + 1\<rparr>)))))"

text \<open>
  The same iteration effect by effect: the states the run passes through during it, in
  order (the external call issued, the mapping assigned to in memory, the file opened, the
  file written). The process can be killed in any of them.
\<close>

definition process_entry_steps ::
  "(flat \<Rightarrow> string \<Rightarrow> string \<Rightarrow> action) \<Rightarrow> (string \<Rightarrow> string) \<Rightarrow> (nat \<Rightarrow> string \<Rightarrow> reply)
   \<Rightarrow> string \<times> string \<Rightarrow> run_state \<Rightarrow> run_state list" where
  "process_entry_steps decide prompt translate entry s =
     (case entry of (key, value) \<Rightarrow>
       (case decide (translated_content s) key value of
          Skip \<Rightarrow> []
        | Copy \<Rightarrow>
            (let s1 = s\<lparr>translated_content := dict_set (translated_content s) key value\<rparr>
             in s1 # persist_steps s1)
        | Translate \<Rightarrow>
            (let s1 = s\<lparr>calls := calls s @ [(key, value)]\<rparr>
             in case translate (length (calls s)) (prompt value) of
                  Raises \<Rightarrow> [s1]
                | Reply answer \<Rightarrow>
                    (let translated_text = clean_output (strip answer)
                     in if translated_text = [] then [s1]
                        else (let s2 = s1\<lparr>translated_content :=
                                             dict_set (translated_content s1) key translated_text,
                                           translated_count := translated_count s1 + 1\<rparr>
                              in s1 # s2 # persist_steps s2)))))"

text \<open>The \<open>for\<close> loop over the pending entries.\<close>

fun run_entries ::
  "(flat \<Rightarrow> string \<Rightarrow> string \<Rightarrow> action) \<Rightarrow> (string \<Rightarrow> string) \<Rightarrow> (nat \<Rightarrow> string \<Rightarrow> reply)
   \<Rightarrow> (string \<times> string) list \<Rightarrow> run_state \<Rightarrow> run_state" where
  "run_entries decide prompt translate [] s = s"
| "run_entries decide prompt translate (entry # rest) s =
     run_entries decide prompt translate rest (process_entry decide prompt translate entry s)"

text \<open>Every state the loop passes through, in order.\<close>

fun run_steps ::
  "(flat \<Rightarrow> string \<Rightarrow> string \<Rightarrow> action) \<Rightarrow> (string \<Rightarrow> string) \<Rightarrow> (nat \<Rightarrow> string \<Rightarrow> reply)
   \<Rightarrow> (string \<times> string) list \<Rightarrow> run_state \<Rightarrow> run_state list" where
  "run_steps decide prompt translate [] s = []"
| "run_steps decide prompt translate (entry # rest) s =
     process_entry_steps decide prompt translate entry s
     @ run_steps decide prompt translate rest (process_entry decide prompt translate entry s)"

subsection \<open>The scripts\<close>

text \<open>The translated mapping as loaded at the start (empty when the file does not parse).\<close>

fun load_translated :: "disk_file \<Rightarrow> flat" where
  "load_translated (Stored m) = m"
| "load_translated _ = []"

text \<open>\<open>base_keys.index(k)\<close> when \<open>k\<close> is in \<open>base_keys\<close>.\<close>

definition index_of :: "'a \<Rightarrow> 'a list \<Rightarrow> nat" where
  "index_of k ks = length (takeWhile (\<lambda>x. x \<noteq> k) ks)"

text \<open>\<open>start_index\<close>\<close>

definition resume_index :: "string list \<Rightarrow> string list \<Rightarrow> nat" where
  "resume_index base_keys translated_keys =
     (if translated_keys \<noteq> [] then
        (let last_translated_key = last translated_keys
         in if last_translated_key \<in> set base_keys
            then index_of last_translated_key base_keys + 1 else 0)
      else 0)"

text \<open>How a run ends: at the already-complete check, or after the loop.\<close>

datatype ending = AlreadyComplete | Finished

definition initial_state :: "disk_file \<Rightarrow> run_state" where
  "initial_state file =
     \<lparr>translated_content = load_translated file, stored = file, backup = Absent,
      calls = [], translated_count = 0\<rparr>"

text \<open>
  A whole run, from the loaded source mapping \<open>base_content\<close> and the translated-mapping
  file as found. \<open>base_keys[-1]\<close> raises \<open>IndexError\<close> on an empty source mapping.
\<close>

definition translate_script ::
  "(flat \<Rightarrow> string \<Rightarrow> string \<Rightarrow> action) \<Rightarrow> (string \<Rightarrow> string) \<Rightarrow> (nat \<Rightarrow> string \<Rightarrow> reply)
   \<Rightarrow> flat \<Rightarrow> disk_file \<Rightarrow> py_error + (ending \<times> run_state)" where
  "translate_script decide prompt translate base_content file =
     (let s0 = initial_state file;
          base_keys = map fst base_content;
          translated_keys = map fst (translated_content s0)
      in if translated_keys \<noteq> [] \<and> base_keys = [] then Inl IndexError
         else if translated_keys \<noteq> [] \<and> last base_keys \<in> set translated_keys
         then Inr (AlreadyComplete, s0)
         else
           (let s1 = s0\<lparr>backup := file\<rparr>;
                start_index = resume_index base_keys translated_keys
            in Inr (Finished,
                 run_entries decide prompt translate (drop start_index base_content) s1)))"

definition gpt_translate ::
  "(nat \<Rightarrow> string \<Rightarrow> reply) \<Rightarrow> flat \<Rightarrow> disk_file \<Rightarrow> py_error + (ending \<times> run_state)" where
  "gpt_translate = translate_script gpt_decide gpt_prompt"

definition gemini_translate ::
  "(nat \<Rightarrow> string \<Rightarrow> reply) \<Rightarrow> flat \<Rightarrow> disk_file \<Rightarrow> py_error + (ending \<times> run_state)" where
  "gemini_translate = translate_script gemini_decide gemini_prompt"

section \<open>Start of the scripts: configuration and the first request\<close>

text \<open>
  The environment is what \<open>os.getenv\<close> returns for a name. What a script does to the
  outside world is recorded as a list of events, in order. Console messages are recorded
  without their leading pictograph.
\<close>

datatype event =
    Print string
  | HttpGet string string
  | Exit

record response =
  status_code :: nat
  body :: string

text \<open>An optional string inside an f-string: \<open>None\<close> is rendered as the text \<open>None\<close>.\<close>

fun fmt :: "string option \<Rightarrow> string" where
  "fmt None = ''None''"
| "fmt (Some s) = s"

text \<open>
  scripts/get-content.py, lines 8 to 23: the keys are read, the request is built and sent,
  and only then is anything checked. \<open>http_get url authorization\<close> is the server's answer.
\<close>

definition get_content_start ::
  "(string \<Rightarrow> string option) \<Rightarrow> (string \<Rightarrow> string \<Rightarrow> response) \<Rightarrow> event list" where
  "get_content_start getenv http_get =
     (let HUBSPOT_API_KEY = getenv ''HUBSPOT_API_KEY'';
          PAGE_ID = getenv ''PAGE_ID'';
          page_url = ''https://api.hubapi.com/cms/v3/pages/site-pages/'' @ fmt PAGE_ID;
          authorization = ''Bearer '' @ fmt HUBSPOT_API_KEY;
          response = http_get page_url authorization
      in if status_code response \<noteq> 200
         then [HttpGet page_url authorization,
               Print (''Failed to fetch page: '' @ str_nat (status_code response) @ [CHR 0x0A]
                      @ body response),
               Exit]
         else [HttpGet page_url authorization, Print ''Page fetched successfully!''])"

text \<open>
  scripts/holiday-page-scripts/update-content.py: \<open>validate_environment\<close> (its messages
  and its result) and the head of \<open>main\<close>. \<open>rest\<close> stands for everything \<open>main\<close> does
  once the environment has been validated.
\<close>

text \<open>\<open>not x\<close> for an optional string\<close>

fun missing :: "string option \<Rightarrow> bool" where
  "missing None = True"
| "missing (Some s) = (s = [])"

definition validate_environment :: "(string \<Rightarrow> string option) \<Rightarrow> event list \<times> bool" where
  "validate_environment getenv =
     (if missing (getenv ''HUBSPOT_API_KEY'')
      then ([Print ''HUBSPOT_API_KEY not found in .env file''], False)
      else if missing (getenv ''PAGE_ID'')
      then ([Print ''PAGE_ID not found in .env file''], False)
      else ([], True))"

definition holiday_update_main :: "(string \<Rightarrow> string option) \<Rightarrow> event list \<Rightarrow> event list" where
  "holiday_update_main getenv rest =
     [Print ''HubSpot Page Content Updater'', Print (replicate 50 CHR ''='')] @
     (case validate_environment getenv of
        (out, ok) \<Rightarrow>
          out @
          (if \<not> ok
           then [Print ([CHR 0x0A] @ ''Make sure your .env file has:''),
                 Print ''   HUBSPOT_API_KEY=your_api_key'',
                 Print ''   PAGE_ID=your_page_id'']
           else rest))"

section \<open>Properties of Path Addressing\<close>

subsection \<open>Which exceptions can arise\<close>

lemma getitem_error: "getitem r k = Inl e \<Longrightarrow> e = KeyError \<or> e = IndexError \<or> e = TypeError"
  by (cases "(r, k)" rule: getitem.cases) (auto split: option.splits)

lemma setitem_error: "setitem r k v = Inl e \<Longrightarrow> e = KeyError \<or> e = IndexError \<or> e = TypeError"
  by (cases "(r, k, v)" rule: setitem.cases) (auto split: option.splits)

lemma digits_value_all_digits: "list_all is_digit s \<Longrightarrow> \<exists>n. digits_value acc s = Some n"
  by (induction s arbitrary: acc) auto

lemma is_digit_not_int_space: "is_digit c \<Longrightarrow> \<not> is_int_space c"
  by (auto simp: is_digit_def is_int_space_def)

lemma int_strip_id:
  "s \<noteq> [] \<Longrightarrow> \<not> is_int_space (hd s) \<Longrightarrow> \<not> is_int_space (last s) \<Longrightarrow> int_strip s = s"
proof -
  assume a: "s \<noteq> []" "\<not> is_int_space (hd s)" "\<not> is_int_space (last s)"
  have keep: "xs \<noteq> [] \<Longrightarrow> \<not> is_int_space (hd xs) \<Longrightarrow> dropWhile is_int_space xs = xs" for xs
    by (cases xs) auto
  have 1: "dropWhile is_int_space s = s"
    using a keep by blast
  have "hd (rev s) = last s" using a by (simp add: hd_rev)
  then have 2: "dropWhile is_int_space (rev s) = rev s"
    using a keep[of "rev s"] by simp
  show ?thesis by (simp add: int_strip_def 1 2)
qed

lemma filter_digits_id: "list_all is_digit s \<Longrightarrow> filter is_digit s = s"
  by (simp add: list_all_iff)

lemma int_body_all_digits:
  "s \<noteq> [] \<Longrightarrow> list_all is_digit s \<Longrightarrow> length s \<le> int_max_str_digits \<Longrightarrow>
   \<exists>n. int_body s = Some n"
  using digits_value_all_digits[of s 0] filter_digits_id[of s]
  by (cases s) (auto simp: int_body_def)

lemma int_body_too_long:
  "list_all is_digit s \<Longrightarrow> int_max_str_digits < length s \<Longrightarrow> int_body s = None"
  using filter_digits_id[of s] by (cases s) (auto simp: int_body_def)

lemma py_int_decimal_text: "decimal_text s \<Longrightarrow> \<exists>i. py_int s = Some i"
proof -
  assume d: "decimal_text s"
  then obtain c cs where s: "s = c # cs" by (cases s) (auto simp: decimal_text_def)
  have last_digit: "is_digit (last s)"
    using d s by (auto simp: decimal_text_def digit_text_def list_all_iff split: if_splits)
  have hd_ns: "\<not> is_int_space (hd s)"
    using d s
    by (auto simp: decimal_text_def digit_text_def is_int_space_def is_digit_def split: if_splits)
  have st: "int_strip s = s"
    using s hd_ns last_digit by (intro int_strip_id) (auto dest: is_digit_not_int_space)
  show ?thesis
  proof (cases "c = CHR ''-'' \<or> c = CHR ''+''")
    case True
    with d s have "cs \<noteq> []" "list_all is_digit cs" "length cs \<le> int_max_str_digits"
      by (auto simp: decimal_text_def digit_text_def)
    then obtain n where "int_body cs = Some n" using int_body_all_digits by blast
    with True st s show ?thesis by (auto simp: py_int_def)
  next
    case False
    with d s have "list_all is_digit (c # cs)" "length (c # cs) \<le> int_max_str_digits"
      by (auto simp: decimal_text_def digit_text_def)
    then obtain n where "int_body (c # cs) = Some n"
      using int_body_all_digits[of "c # cs"] by blast
    with False st s show ?thesis by (auto simp: py_int_def)
  qed
qed

text \<open>Digits beyond the interpreter's limit are refused.\<close>

lemma py_int_too_long:
  assumes "list_all is_digit s" "int_max_str_digits < length s"
  shows "py_int s = None"
proof -
  from assms(2) obtain c cs where s: "s = c # cs" by (cases s) auto
  have c: "is_digit c" and l: "is_digit (last s)"
    using assms(1) s by (auto simp: list_all_iff)
  have st: "int_strip s = s"
    using s c l by (intro int_strip_id) (auto dest: is_digit_not_int_space)
  have sign: "c \<noteq> CHR ''-''" "c \<noteq> CHR ''+''" using c by (auto simp: is_digit_def)
  have "int_body (c # cs) = None" using int_body_too_long[OF assms] s by simp
  then show ?thesis using st s sign by (simp add: py_int_def)
qed

text \<open>The pieces of a bracketed part \<open>field[text]\<close>.\<close>

lemma split_on_no_sep: "c \<notin> set k \<Longrightarrow> split_on c k = [k]"
  by (induction k) auto

lemma takeWhile_until: "c \<notin> set k \<Longrightarrow> takeWhile (\<lambda>x. x \<noteq> c) (k @ c # t) = k"
  by (induction k) auto

lemma bracket_parts:
  assumes "safe_key (KStr k)" "CHR '']'' \<notin> set ds"
  shows "has_brackets (k @ ''['' @ ds @ '']'')"
    and "bracket_field (k @ ''['' @ ds @ '']'') = k"
    and "bracket_text (k @ ''['' @ ds @ '']'') = ds"
proof -
  let ?p = "k @ ''['' @ ds @ '']''"
  show "has_brackets ?p" by (simp add: has_brackets_def)
  have nk: "CHR ''['' \<notin> set k" "CHR '']'' \<notin> set k" using assms by auto
  have t1: "takeWhile (\<lambda>x. x \<noteq> CHR ''['') ?p = k"
    using takeWhile_until[OF nk(1), of "ds @ '']''"] by simp
  then show "bracket_field ?p = k"
    by (simp add: bracket_field_def)
  have f1: "find_char CHR ''['' ?p = length k"
    using t1 by (simp add: find_char_def)
  have "CHR '']'' \<notin> set (k @ ''['' @ ds)"
    using nk assms(2) by simp
  from takeWhile_until[OF this, of "[]"]
  have "takeWhile (\<lambda>x. x \<noteq> CHR '']'') ?p = k @ ''['' @ ds"
    by simp
  then have f2: "find_char CHR '']'' ?p = length k + 1 + length ds"
    by (simp add: find_char_def)
  show "bracket_text ?p = ds"
    using f1 f2 by (simp add: bracket_text_def slice_def)
qed

lemma bracket_index_decimal: "decimal_text (bracket_text p) \<Longrightarrow> \<exists>i. bracket_index p = Inr i"
  using py_int_decimal_text[of "bracket_text p"] by (auto simp: bracket_index_def)

lemma resolve_part_error:
  "\<not> has_brackets p \<or> decimal_text (bracket_text p) \<Longrightarrow> resolve_part ref p = Inl e
   \<Longrightarrow> e = KeyError \<or> e = IndexError \<or> e = TypeError"
  using bracket_index_decimal[of p]
  by (auto simp: resolve_part_def split: if_splits sum.splits dest: getitem_error)

lemma assign_part_error:
  "\<not> has_brackets p \<or> decimal_text (bracket_text p) \<Longrightarrow> assign_part ref p v = Inl e
   \<Longrightarrow> e = KeyError \<or> e = IndexError \<or> e = TypeError"
  using bracket_index_decimal[of p]
  by (auto simp: assign_part_def split: if_splits sum.splits dest: getitem_error setitem_error)

lemma split_on_nonempty: "split_on c s \<noteq> []"
  by (induction s) (auto split: list.splits)

lemma update_parts_error:
  "ps \<noteq> [] \<Longrightarrow> list_all (\<lambda>p. \<not> has_brackets p \<or> decimal_text (bracket_text p)) ps \<Longrightarrow>
   update_parts ref ps v = Inl e \<Longrightarrow> e = KeyError \<or> e = IndexError \<or> e = TypeError"
proof (induction ref ps v rule: update_parts.induct)
  case (1 ref v)
  then show ?case by simp
next
  case (2 ref p v)
  then show ?case using assign_part_error[of p ref v e] by simp
next
  case (3 ref p q ps v)
  show ?case
  proof (cases "resolve_part ref p")
    case (Inl e')
    with 3 show ?thesis using resolve_part_error[of p ref e'] by simp
  next
    case (Inr r)
    with 3 show ?thesis by (auto split: sum.splits)
  qed
qed

lemma update_nested_field_returns:
  assumes "integer_brackets key_path"
  shows "\<exists>b d'. update_nested_field data_obj key_path new_value = Inr (b, d')"
proof (cases "update_parts data_obj (split_on CHR ''.'' key_path) new_value")
  case (Inl e)
  then have "e = KeyError \<or> e = IndexError \<or> e = TypeError"
    using update_parts_error[OF split_on_nonempty] assms
    unfolding integer_brackets_def by blast
  with Inl show ?thesis by (auto simp: update_nested_field_def)
next
  case (Inr d')
  then show ?thesis by (auto simp: update_nested_field_def)
qed

text \<open>
  C10 (as amended). For every document and every path whose bracketed parts all enclose
  decimal-integer text of at most 4300 digits (an optional sign, then digits),
  \<open>update_nested_field\<close> returns \<open>True\<close> or \<open>False\<close> (with the document as it then is)
  and never raises: every exception of the walk and of the final assignment is a
  \<open>KeyError\<close>, an \<open>IndexError\<close> or a \<open>TypeError\<close>, and those are caught.
\<close>

theorem update_nested_field_total:
  assumes "integer_brackets key_path"
  shows "\<exists>b d'. update_nested_field data_obj key_path new_value = Inr (b, d')"
  using assms by (rule update_nested_field_returns)

theorem update_nested_field_total_witness:
  "integer_brackets ''a[0].title'' \<and>
   (\<exists>b d'. update_nested_field (JDict [(KStr ''a'', JList [JDict [(KStr ''title'', JStr ''x'')]])])
      ''a[0].title'' (JStr ''y'') = Inr (b, d'))"
proof -
  have h: "integer_brackets ''a[0].title''"
    by code_simp
  from update_nested_field_total[OF h] h show ?thesis by blast
qed

text \<open>
  As stated, for every bracket text that is decimal-integer text, C10 fails: \<open>int()\<close>
  refuses text of more than 4300 digits with a \<open>ValueError\<close>, which the \<open>except\<close> clause
  of \<open>update_nested_field\<close> does not name. The path here is \<open>a[11...1]\<close> with 4301
  digits between the brackets.
\<close>

theorem update_nested_field_digit_cap_counterexample:
  "digit_text (bracket_text (''a['' @ replicate 4301 CHR ''1'' @ '']''))
   \<and> update_nested_field (JDict [(KStr ''a'', JList [JStr ''x''])])
         (''a['' @ replicate 4301 CHR ''1'' @ '']'') (JStr ''y'') = Inl ValueError"
proof -
  define ds where "ds = replicate 4301 CHR ''1''"
  define p where "p = ''a['' @ ds @ '']''"
  have all: "list_all is_digit ds" by (simp add: ds_def list_all_iff is_digit_def)
  have ne: "ds \<noteq> []" by (simp add: ds_def)
  have nb: "CHR '']'' \<notin> set ds" by (simp add: ds_def)
  have safe: "safe_key (KStr ''a'')" by simp
  have hb: "has_brackets p" and bt: "bracket_text p = ds"
    using bracket_parts[OF safe nb] unfolding p_def by simp_all
  have "int_max_str_digits < length ds" by (simp add: ds_def int_max_str_digits_def)
  from py_int_too_long[OF all this] have bi: "bracket_index p = Inl ValueError"
    by (simp add: bracket_index_def bt)
  have "CHR ''.'' \<notin> set p" by (simp add: p_def ds_def)
  then have sp: "split_on CHR ''.'' p = [p]" by (rule split_on_no_sep)
  have "assign_part (JDict [(KStr ''a'', JList [JStr ''x''])]) p (JStr ''y'') = Inl ValueError"
    using hb bi by (simp add: assign_part_def)
  then have u: "update_nested_field (JDict [(KStr ''a'', JList [JStr ''x''])]) p (JStr ''y'')
      = Inl ValueError"
    by (simp add: update_nested_field_def sp)
  have "digit_text (bracket_text p)" using all ne by (simp add: bt digit_text_def)
  with u show ?thesis unfolding p_def ds_def by simp
qed

section \<open>Properties of Payload Reinjection\<close>


lemma dict_set_fresh: "k \<notin> fst ` set d \<Longrightarrow> dict_set d k v = d @ [(k, v)]"
  by (induction d) auto









text \<open>
  C8. The claim does not hold of the code at these inputs. A path whose last key is
  missing from the mapping it reaches is not reported: the assignment creates the key,
  \<open>update_nested_field\<close> returns \<open>True\<close>, the entry is counted as updated and
  \<open>not_found\<close> stays empty. A path with non-integer text between its brackets makes
  \<open>int\<close> raise \<open>ValueError\<close>, which the \<open>except\<close> clause does not name, and the
  batch is aborted.
\<close>

theorem reinjection_unreported_path:
  "update_nested_field (JDict [(KStr ''a'', JDict [(KStr ''title'', JStr '''')])])
      ''a.missing'' (JStr ''X'')
     = Inr (True, JDict [(KStr ''a'', JDict [(KStr ''title'', JStr ''''), (KStr ''missing'', JStr ''X'')])]) \<and>
   apply_translations (JDict [(KStr ''a'', JDict [(KStr ''title'', JStr '''')])])
      [(''root.a.title'', JStr ''HELLO''), (''root.a.missing'', JStr ''X'')] 0 []
     = Inr (JDict [(KStr ''a'', JDict [(KStr ''title'', JStr ''HELLO''), (KStr ''missing'', JStr ''X'')])],
            2, []) \<and>
   apply_translations (JDict [(KStr ''a'', JDict [(KStr ''title'', JStr '''')])])
      [(''root.a[x].title'', JStr ''X''), (''root.a.title'', JStr ''HELLO'')] 0 []
     = Inl ValueError"
  by code_simp

section \<open>Properties of the Field Extractor\<close>

subsection \<open>Paths as the extractor writes them\<close>

lemma split_on_append: "c \<notin> set k \<Longrightarrow> split_on c (k @ c # t) = k # split_on c t"
  by (induction k) auto

lemma digit_char_digit: "d < 10 \<Longrightarrow> is_digit (digit_char d) \<and> digit_val (digit_char d) = d"
proof -
  assume "d < 10"
  then have "d \<in> {0, 1, 2, 3, 4, 5, 6, 7, 8, 9}" by auto
  then show ?thesis
    by (auto simp: digit_char_def is_digit_def digit_val_def)
qed

lemma str_nat_digits: "list_all is_digit (str_nat n)"
proof (induction n rule: str_nat.induct)
  case (1 n)
  show ?case
  proof (cases "n < 10")
    case True
    then show ?thesis using digit_char_digit[of n] by (subst str_nat.simps) simp
  next
    case False
    then show ?thesis using 1 digit_char_digit[of "n mod 10"]
      by (subst str_nat.simps) simp
  qed
qed

lemma str_nat_nonempty: "str_nat n \<noteq> []"
  by (subst str_nat.simps) simp

lemma digits_value_snoc:
  "list_all is_digit s \<Longrightarrow> d < 10 \<Longrightarrow>
   digits_value acc (s @ [digit_char d]) = map_option (\<lambda>m. 10 * m + d) (digits_value acc s)"
  using digit_char_digit[of d]
  by (induction s arbitrary: acc) auto

lemma digits_value_str_nat: "digits_value 0 (str_nat n) = Some n"
proof (induction n rule: str_nat.induct)
  case (1 n)
  show ?case
  proof (cases "n < 10")
    case True
    then show ?thesis using digit_char_digit[of n] by (subst str_nat.simps) simp
  next
    case False
    then have "digits_value 0 (str_nat (n div 10)) = Some (n div 10)" using 1 by simp
    then show ?thesis
      using False digits_value_snoc[OF str_nat_digits, of "n mod 10" 0 "n div 10"]
      by (subst str_nat.simps) simp
  qed
qed

lemma str_nat_length: "0 < k \<Longrightarrow> n < 10 ^ k \<Longrightarrow> length (str_nat n) \<le> k"
proof (induction n arbitrary: k rule: str_nat.induct)
  case (1 n)
  show ?case
  proof (cases "n < 10")
    case True
    then show ?thesis using "1.prems" by (subst str_nat.simps) simp
  next
    case False
    obtain j where k: "k = Suc j" using "1.prems"(1) by (cases k) auto
    have j: "0 < j" using False "1.prems"(2) k by (cases j) auto
    have "n div 10 < 10 ^ j"
      using "1.prems"(2) k by (simp add: less_mult_imp_div_less mult.commute)
    from "1.IH"[OF False j this] show ?thesis
      using False k by (subst str_nat.simps) simp
  qed
qed

lemma str_nat_short: "n < 10 ^ int_max_str_digits \<Longrightarrow> length (str_nat n) \<le> int_max_str_digits"
proof -
  assume small: "n < 10 ^ int_max_str_digits"
  have "0 < int_max_str_digits" by (simp add: int_max_str_digits_def)
  from str_nat_length[OF this small] show ?thesis .
qed

lemma few_elements: "(n::nat) \<le> 10 \<Longrightarrow> n \<le> 10 ^ int_max_str_digits"
proof -
  assume "n \<le> 10"
  moreover have "(10::nat) \<le> 10 ^ int_max_str_digits"
    by (rule self_le_power) (simp_all add: int_max_str_digits_def)
  ultimately show ?thesis by (rule le_trans)
qed

lemma py_int_str_nat: "n < 10 ^ int_max_str_digits \<Longrightarrow> py_int (str_nat n) = Some (int n)"
proof -
  assume small: "n < 10 ^ int_max_str_digits"
  obtain c cs where s: "str_nat n = c # cs"
    using str_nat_nonempty[of n] by (cases "str_nat n") auto
  have all: "list_all is_digit (c # cs)" using str_nat_digits[of n] s by simp
  then have c: "is_digit c" by simp
  have "is_digit (last (str_nat n))"
    using str_nat_digits[of n] str_nat_nonempty[of n] by (simp add: list_all_iff)
  then have st: "int_strip (str_nat n) = str_nat n"
    using c s by (intro int_strip_id) (auto dest: is_digit_not_int_space)
  have sign: "c \<noteq> CHR ''-''" "c \<noteq> CHR ''+''" using c by (auto simp: is_digit_def)
  have "\<not> int_max_str_digits < length (filter is_digit (c # cs))"
    using filter_digits_id[OF all] str_nat_short[OF small] s by simp
  then have "int_body (c # cs) = Some n"
    using digits_value_str_nat[of n] s c by (simp add: int_body_def)
  then show ?thesis using st s sign by (simp add: py_int_def)
qed

lemma digit_not_delim: "is_digit c \<Longrightarrow> c \<noteq> CHR ''['' \<and> c \<noteq> CHR '']'' \<and> c \<noteq> CHR ''.''"
  by (auto simp: is_digit_def)

lemma str_nat_no_delim:
  "CHR ''['' \<notin> set (str_nat n)" "CHR '']'' \<notin> set (str_nat n)" "CHR ''.'' \<notin> set (str_nat n)"
  using str_nat_digits[of n] digit_not_delim by (auto simp: list_all_iff)

lemma resolve_part_key:
  "safe_key (KStr k) \<Longrightarrow> resolve_part ref k = getitem ref (KStr k)"
  by (simp add: resolve_part_def has_brackets_def)

lemma resolve_part_index:
  assumes "safe_key (KStr k)" "map_of d (KStr k) = Some (JList xs)" "i < length xs"
    "length xs \<le> 10 ^ int_max_str_digits"
  shows "resolve_part (JDict d) (k @ ''['' @ str_nat i @ '']'') = Inr (xs ! i)"
proof -
  have "i < 10 ^ int_max_str_digits" using assms(3,4) by (rule less_le_trans)
  from py_int_str_nat[OF this] assms bracket_parts[OF assms(1) str_nat_no_delim(2), of i]
  show ?thesis by (simp add: resolve_part_def bracket_index_def py_index_def)
qed

subsection \<open>Every extracted entry is an addressable leaf\<close>

lemma dict_set_entries: "(p, v) \<in> set (dict_set r k x) \<Longrightarrow> (p, v) \<in> set r \<or> (p = k \<and> v = x)"
  by (induction r) (auto split: if_splits)

lemma walk_key:
  "safe_key (KStr k) \<Longrightarrow> map_of d (KStr k) = Some c \<Longrightarrow> walk (JDict d) (k # ps) = walk c ps"
  by (simp add: resolve_part_key)

lemma walk_index:
  "safe_key (KStr k) \<Longrightarrow> map_of d (KStr k) = Some (JList xs) \<Longrightarrow> i < length xs \<Longrightarrow>
   length xs \<le> 10 ^ int_max_str_digits \<Longrightarrow>
   walk (JDict d) ((k @ ''['' @ str_nat i @ '']'') # ps) = walk (xs ! i) ps"
  using resolve_part_index[of k d xs i] by simp

lemma safe_key_KStr: "safe_key key \<Longrightarrow> \<exists>k. key = KStr k"
  by (cases key) auto

lemma extract_entries:
  "addressable obj \<Longrightarrow> extract_text_fields obj path result = Inr r' \<Longrightarrow> (p, v) \<in> set r' \<Longrightarrow>
     (p, v) \<in> set result
     \<or> (\<exists>d t. obj = JDict d \<and> p = path @ ''.'' @ t
            \<and> walk obj (split_on CHR ''.'' t) = Inr (JStr v))
     \<or> (\<exists>xs j t. obj = JList xs \<and> j < length xs \<and> p = path @ ''['' @ str_nat j @ '']'' @ ''.'' @ t
            \<and> walk (xs ! j) (split_on CHR ''.'' t) = Inr (JStr v))"
  and "\<forall>kv\<in>set its. safe_key (fst kv) \<and> addressable (snd kv) \<and> map_of d (fst kv) = Some (snd kv) \<Longrightarrow>
     extract_items its path result = Inr r' \<Longrightarrow> (p, v) \<in> set r' \<Longrightarrow>
     (p, v) \<in> set result
     \<or> (\<exists>t. p = path @ ''.'' @ t \<and> walk (JDict d) (split_on CHR ''.'' t) = Inr (JStr v))"
  and "\<forall>x\<in>set els. \<not> is_list x \<and> addressable x \<Longrightarrow>
     extract_elems els i path result = Inr r' \<Longrightarrow> (p, v) \<in> set r' \<Longrightarrow>
     (p, v) \<in> set result
     \<or> (\<exists>j t. j < length els \<and> p = path @ ''['' @ str_nat (i + j) @ '']'' @ ''.'' @ t
            \<and> walk (els ! j) (split_on CHR ''.'' t) = Inr (JStr v))"
proof (induction obj path result and its path result and els i path result
    arbitrary: r' p v and d r' p v and r' p v
    rule: extract_text_fields_extract_items_extract_elems.induct)
  case (1 d0 path result)
  have "\<forall>kv\<in>set d0. safe_key (fst kv) \<and> addressable (snd kv) \<and> map_of d0 (fst kv) = Some (snd kv)"
    using "1.prems"(1) by auto
  from "1.IH"[OF this, of r' p v] "1.prems" show ?case by auto
next
  case (2 xs path result)
  have "\<forall>x\<in>set xs. \<not> is_list x \<and> addressable x" using "2.prems"(1) by simp
  from "2.IH"[OF this, of r' p v] "2.prems" show ?case by auto
next
  case (9 key val rest path result)
  from "9.prems"(1) obtain k where key: "key = KStr k" and safe: "safe_key (KStr k)"
    and addr: "addressable val" and look: "map_of d (KStr k) = Some val"
    and rest: "\<forall>kv\<in>set rest. safe_key (fst kv) \<and> addressable (snd kv) \<and> map_of d (fst kv) = Some (snd kv)"
    using safe_key_KStr[of key] by auto
  have nodot: "CHR ''.'' \<notin> set k" using safe by simp
  show ?case
  proof (cases "is_container val")
    case True
    with "9.prems"(2) obtain b where
      b: "extract_text_fields val (path @ ''.'' @ key_str key) result = Inr b"
      and r: "extract_items rest path b = Inr r'"
      by (auto split: sum.splits)
    from "9.IH"(2)[OF True b rest r "9.prems"(3)]
    consider (old) "(p, v) \<in> set b"
      | (new) "\<exists>t. p = path @ ''.'' @ t \<and> walk (JDict d) (split_on CHR ''.'' t) = Inr (JStr v)"
      by blast
    then show ?thesis
    proof cases
      case new
      then show ?thesis by blast
    next
      case old
      from "9.IH"(1)[OF True addr b old]
      consider (res) "(p, v) \<in> set result"
        | (dict) d2 t where "val = JDict d2" "p = (path @ ''.'' @ key_str key) @ ''.'' @ t"
            "walk val (split_on CHR ''.'' t) = Inr (JStr v)"
        | (list) xs j t where "val = JList xs" "j < length xs"
            "p = (path @ ''.'' @ key_str key) @ ''['' @ str_nat j @ '']'' @ ''.'' @ t"
            "walk (xs ! j) (split_on CHR ''.'' t) = Inr (JStr v)"
        by blast
      then show ?thesis
      proof cases
        case res
        then show ?thesis by blast
      next
        case dict
        have "split_on CHR ''.'' (k @ CHR ''.'' # t) = k # split_on CHR ''.'' t"
          using nodot by (rule split_on_append)
        then have "walk (JDict d) (split_on CHR ''.'' (k @ ''.'' @ t)) = Inr (JStr v)"
          using dict(3) walk_key[OF safe look] by simp
        moreover have "p = path @ ''.'' @ (k @ ''.'' @ t)" using dict(2) key by simp
        ultimately show ?thesis by blast
      next
        case list
        have "CHR ''.'' \<notin> set (k @ ''['' @ str_nat j @ '']'')"
          using nodot str_nat_no_delim(3)[of j] by simp
        from split_on_append[OF this, of t]
        have "split_on CHR ''.'' (k @ ''['' @ str_nat j @ '']'' @ ''.'' @ t)
                = (k @ ''['' @ str_nat j @ '']'') # split_on CHR ''.'' t"
          by simp
        then have "walk (JDict d) (split_on CHR ''.'' (k @ ''['' @ str_nat j @ '']'' @ ''.'' @ t)) = Inr (JStr v)"
          using list walk_index[OF safe, of d xs j] look addr by simp
        moreover have "p = path @ ''.'' @ (k @ ''['' @ str_nat j @ '']'' @ ''.'' @ t)"
          using list(3) key by simp
        ultimately show ?thesis by blast
      qed
    qed
  next
    case False
    show ?thesis
    proof (cases val)
      case (JStr s)
      let ?keep = "list_ex (contains (lower k)) text_keywords
                     \<and> \<not> list_ex (contains (lower k)) excluded_keywords \<and> strip s \<noteq> []"
      show ?thesis
      proof (cases ?keep)
        case True
        with "9.prems"(2) JStr key have
          r: "extract_items rest path (dict_set result (path @ ''.'' @ key_str key) s) = Inr r'"
          by simp
        have kl: "key_lower key = Inr (lower k)" using key by simp
        from "9.IH"(7)[OF False JStr kl True rest r "9.prems"(3)]
        consider (old) "(p, v) \<in> set (dict_set result (path @ ''.'' @ key_str key) s)"
          | (new) "\<exists>t. p = path @ ''.'' @ t \<and> walk (JDict d) (split_on CHR ''.'' t) = Inr (JStr v)"
          by blast
        then show ?thesis
        proof cases
          case new
          then show ?thesis by blast
        next
          case old
          from dict_set_entries[OF old] show ?thesis
          proof
            assume "(p, v) \<in> set result"
            then show ?thesis by blast
          next
            assume e: "p = path @ ''.'' @ key_str key \<and> v = s"
            have "walk (JDict d) (split_on CHR ''.'' k) = Inr (JStr v)"
              using split_on_no_sep[OF nodot] walk_key[OF safe look, of "[]"] JStr e by simp
            with e key show ?thesis by auto
          qed
        qed
      next
        case F: False
        with "9.prems"(2) JStr key have r: "extract_items rest path result = Inr r'"
          by auto
        have kl: "key_lower key = Inr (lower k)" using key by simp
        from "9.IH"(8)[OF False JStr kl F rest r "9.prems"(3)] show ?thesis .
      qed
    next
      case JNull
      with "9.prems"(2) have r: "extract_items rest path result = Inr r'" by simp
      from "9.IH"(3)[OF False JNull rest r "9.prems"(3)] show ?thesis .
    next
      case (JBool x)
      with "9.prems"(2) have r: "extract_items rest path result = Inr r'" by simp
      from "9.IH"(4)[OF False JBool rest r "9.prems"(3)] show ?thesis .
    next
      case (JInt x)
      with "9.prems"(2) have r: "extract_items rest path result = Inr r'" by simp
      from "9.IH"(5)[OF False JInt rest r "9.prems"(3)] show ?thesis .
    next
      case (JFloat x)
      with "9.prems"(2) have r: "extract_items rest path result = Inr r'" by simp
      from "9.IH"(6)[OF False JFloat rest r "9.prems"(3)] show ?thesis .
    next
      case (JList x)
      with False show ?thesis by simp
    next
      case (JDict x)
      with False show ?thesis by simp
    qed
  qed
next
  case (11 item rest i path result)
  from "11.prems"(2) obtain b where
    b: "extract_text_fields item (path @ ''['' @ str_nat i @ '']'') result = Inr b"
    and r: "extract_elems rest (Suc i) path b = Inr r'"
    by (auto split: sum.splits)
  have item: "\<not> is_list item" "addressable item"
    and restok: "\<forall>x\<in>set rest. \<not> is_list x \<and> addressable x"
    using "11.prems"(1) by auto
  from "11.IH"(2)[OF b restok r "11.prems"(3)]
  consider (old) "(p, v) \<in> set b"
    | (new) j t where "j < length rest" "p = path @ ''['' @ str_nat (Suc i + j) @ '']'' @ ''.'' @ t"
        "walk (rest ! j) (split_on CHR ''.'' t) = Inr (JStr v)"
    by blast
  then show ?case
  proof cases
    case new
    then have "Suc j < length (item # rest) \<and> p = path @ ''['' @ str_nat (i + Suc j) @ '']'' @ ''.'' @ t
        \<and> walk ((item # rest) ! Suc j) (split_on CHR ''.'' t) = Inr (JStr v)"
      by simp
    then show ?thesis by blast
  next
    case old
    from "11.IH"(1)[OF item(2) b old] item(1)
    consider (res) "(p, v) \<in> set result"
      | (dict) d2 t where "item = JDict d2" "p = (path @ ''['' @ str_nat i @ '']'') @ ''.'' @ t"
          "walk item (split_on CHR ''.'' t) = Inr (JStr v)"
      by auto
    then show ?thesis
    proof cases
      case res
      then show ?thesis by blast
    next
      case dict
      then have "0 < length (item # rest) \<and> p = path @ ''['' @ str_nat (i + 0) @ '']'' @ ''.'' @ t
        \<and> walk ((item # rest) ! 0) (split_on CHR ''.'' t) = Inr (JStr v)"
        by simp
      then show ?thesis by blast
    qed
  qed
qed auto

lemma extract_returns:
  "addressable obj \<Longrightarrow> \<exists>r'. extract_text_fields obj path result = Inr r'"
  and "\<forall>kv\<in>set its. safe_key (fst kv) \<and> addressable (snd kv) \<Longrightarrow>
       \<exists>r'. extract_items its path result = Inr r'"
  and "\<forall>x\<in>set els. addressable x \<Longrightarrow> \<exists>r'. extract_elems els i path result = Inr r'"
proof (induction obj path result and its path result and els i path result
    rule: extract_text_fields_extract_items_extract_elems.induct)
  case (9 key val rest path result)
  from "9.prems" obtain k where key: "key = KStr k" and addr: "addressable val"
    and rest: "\<forall>kv\<in>set rest. safe_key (fst kv) \<and> addressable (snd kv)"
    using safe_key_KStr[of key] by auto
  show ?case
  proof (cases "is_container val")
    case True
    from "9.IH"(1)[OF True addr] obtain b where
      b: "extract_text_fields val (path @ ''.'' @ key_str key) result = Inr b" by blast
    from "9.IH"(2)[OF True b rest] b True show ?thesis by simp
  next
    case False
    have kl: "key_lower key = Inr (lower k)" using key by simp
    show ?thesis
    proof (cases val)
      case (JStr s)
      show ?thesis
      proof (cases "list_ex (contains (lower k)) text_keywords
                     \<and> \<not> list_ex (contains (lower k)) excluded_keywords \<and> strip s \<noteq> []")
        case True
        from "9.IH"(7)[OF False JStr kl True rest] JStr kl True show ?thesis by simp
      next
        case F: False
        from "9.IH"(8)[OF False JStr kl F rest] JStr kl F show ?thesis by auto
      qed
    next
      case JNull
      from "9.IH"(3)[OF False JNull rest] JNull show ?thesis by simp
    next
      case (JBool x)
      from "9.IH"(4)[OF False JBool rest] JBool show ?thesis by simp
    next
      case (JInt x)
      from "9.IH"(5)[OF False JInt rest] JInt show ?thesis by simp
    next
      case (JFloat x)
      from "9.IH"(6)[OF False JFloat rest] JFloat show ?thesis by simp
    next
      case (JList x)
      with False show ?thesis by simp
    next
      case (JDict x)
      with False show ?thesis by simp
    qed
  qed
next
  case (11 item rest i path result)
  from "11.prems" have item: "addressable item" and rest: "\<forall>x\<in>set rest. addressable x" by auto
  from "11.IH"(1)[OF item] obtain b where
    b: "extract_text_fields item (path @ ''['' @ str_nat i @ '']'') result = Inr b" by blast
  from "11.IH"(2)[OF b rest] b show ?case by simp
qed auto

lemma clean_path_root: "clean_path (''root'' @ ''.'' @ t) = t"
  by (simp add: clean_path_def startswith_def)

text \<open>
  C3 (as amended). For every document that is a mapping, in which every mapping has
  distinct string keys free of \<open>.\<close>, \<open>[\<close> and \<open>]\<close>, no sequence is an element of a
  sequence and no sequence has more than \<open>10 ^ 4300\<close> elements (an index of more than
  4300 digits is text that \<open>int()\<close> refuses), the Field Extractor returns a flat mapping,
  and for each of its entries the path, with its leading \<open>root.\<close> cut off and resolved
  part by part as \<open>update_nested_field\<close> walks it, reaches exactly the string stored in
  the entry.
\<close>

theorem extracted_paths_read_back:
  assumes "addressable (JDict d)"
  shows "\<exists>F. extract_page (JDict d) = Inr F \<and>
           (\<forall>pv \<in> set F. read_nested_field (JDict d) (clean_path (fst pv)) = Inr (JStr (snd pv)))"
proof -
  from extract_returns(1)[OF assms, of "''root''" "[]"] obtain F where
    F: "extract_page (JDict d) = Inr F" by (auto simp: extract_page_def)
  have "read_nested_field (JDict d) (clean_path p) = Inr (JStr v)" if "(p, v) \<in> set F" for p v
  proof -
    from extract_entries(1)[OF assms F[unfolded extract_page_def] that]
    obtain t where "p = ''root'' @ ''.'' @ t"
      "walk (JDict d) (split_on CHR ''.'' t) = Inr (JStr v)" by auto
    then show ?thesis using clean_path_root[of t] by (simp add: read_nested_field_def)
  qed
  with F show ?thesis by auto
qed

theorem extracted_paths_read_back_witness:
  "addressable (JDict [(KStr ''rows'', JList [JDict [(KStr ''Title'', JStr ''x'')], JDict [(KStr ''label'', JStr ''y'')]])]) \<and>
   extract_page (JDict [(KStr ''rows'', JList [JDict [(KStr ''Title'', JStr ''x'')], JDict [(KStr ''label'', JStr ''y'')]])])
     = Inr [(''root.rows[0].Title'', ''x''), (''root.rows[1].label'', ''y'')] \<and>
   read_nested_field (JDict [(KStr ''rows'', JList [JDict [(KStr ''Title'', JStr ''x'')], JDict [(KStr ''label'', JStr ''y'')]])])
     (clean_path ''root.rows[1].label'') = Inr (JStr ''y'')"
proof -
  let ?D = "JDict [(KStr ''rows'', JList [JDict [(KStr ''Title'', JStr ''x'')], JDict [(KStr ''label'', JStr ''y'')]])]"
  have h: "addressable ?D" by (simp add: few_elements)
  have e: "extract_page ?D = Inr [(''root.rows[0].Title'', ''x''), (''root.rows[1].label'', ''y'')]"
    by code_simp
  from extracted_paths_read_back[OF h] e
  have "read_nested_field ?D (clean_path ''root.rows[1].label'') = Inr (JStr ''y'')"
    by auto
  with h e show ?thesis by blast
qed

text \<open>
  As stated, for every document, C3 fails: a key that contains a dot is split into two
  parts, and of a sequence inside a sequence only the first index is read.
\<close>

theorem extracted_path_counterexample:
  "extract_page (JDict [(KStr ''a.b'', JDict [(KStr ''title'', JStr ''x'')])])
     = Inr [(''root.a.b.title'', ''x'')] \<and>
   read_nested_field (JDict [(KStr ''a.b'', JDict [(KStr ''title'', JStr ''x'')])])
     (clean_path ''root.a.b.title'') = Inl KeyError \<and>
   extract_page (JDict [(KStr ''a'', JList [JList [JDict [(KStr ''title'', JStr ''x'')]]])])
     = Inr [(''root.a[0][0].title'', ''x'')] \<and>
   read_nested_field (JDict [(KStr ''a'', JList [JList [JDict [(KStr ''title'', JStr ''x'')]]])])
     (clean_path ''root.a[0][0].title'') = Inl TypeError"
  by code_simp

subsection \<open>The read walk and the write agree\<close>

text \<open>
  Whenever \<open>update_nested_field\<close> returns \<open>True\<close>, reading the same path in the document
  it leaves behind reaches the value just assigned: \<open>read_nested_field\<close> resolves a path
  to the position that \<open>update_nested_field\<close> assigns to.
\<close>

lemma map_of_dict_set: "map_of (dict_set d k v) k = Some v"
  by (induction d) auto

lemma setitem_getitem: "setitem ref k v = Inr ref' \<Longrightarrow> getitem ref' k = Inr v"
  by (cases "(ref, k, v)" rule: setitem.cases)
     (auto simp: map_of_dict_set py_index_def Let_def split: option.splits if_splits)

lemma put_back_getitem:
  "getitem ref k = Inr c \<Longrightarrow> \<not> is_str ref \<Longrightarrow> getitem (put_back ref k c') k = Inr c'"
  by (cases "(ref, k)" rule: getitem.cases)
     (auto simp: map_of_dict_set py_index_def Let_def split: option.splits if_splits)

lemma getitem_KStr_dict: "getitem ref (KStr f) = Inr c \<Longrightarrow> \<not> is_str ref"
  by (cases ref) auto

lemma assign_part_str: "assign_part (JStr t) p v \<noteq> Inr r"
  by (auto simp: assign_part_def split: sum.splits)

lemma resolve_part_str: "resolve_part (JStr t) p \<noteq> Inr r"
  by (auto simp: resolve_part_def split: sum.splits)

lemma update_parts_str: "update_parts (JStr t) ps v \<noteq> Inr r"
proof (cases ps)
  case Nil
  then show ?thesis by simp
next
  case (Cons p qs)
  then show ?thesis
    using assign_part_str[of t p v r] resolve_part_str[of t p]
    by (cases qs) (auto split: sum.splits)
qed

lemma assign_part_resolve: "assign_part ref p v = Inr ref' \<Longrightarrow> resolve_part ref' p = Inr v"
proof (cases "has_brackets p")
  case False
  assume "assign_part ref p v = Inr ref'"
  with False show ?thesis by (simp add: assign_part_def resolve_part_def setitem_getitem)
next
  case True
  assume a: "assign_part ref p v = Inr ref'"
  with True obtain idx c c' where
    i: "bracket_index p = Inr idx" and c: "getitem ref (KStr (bracket_field p)) = Inr c"
    and s: "setitem c (KInt idx) v = Inr c'"
    and r: "ref' = put_back ref (KStr (bracket_field p)) c'"
    by (auto simp: assign_part_def split: sum.splits)
  have "getitem ref' (KStr (bracket_field p)) = Inr c'"
    using put_back_getitem[OF c getitem_KStr_dict[OF c]] r by simp
  with True i setitem_getitem[OF s] show ?thesis by (simp add: resolve_part_def)
qed

lemma put_part_resolve:
  assumes "resolve_part ref p = Inr r" "\<not> is_str r"
  shows "resolve_part (put_part ref p r') p = Inr r'"
proof (cases "has_brackets p")
  case False
  with assms have g: "getitem ref (KStr p) = Inr r" by (simp add: resolve_part_def)
  from put_back_getitem[OF g getitem_KStr_dict[OF g]] False show ?thesis
    by (simp add: resolve_part_def put_part_def)
next
  case True
  with assms obtain idx c where
    i: "bracket_index p = Inr idx" and c: "getitem ref (KStr (bracket_field p)) = Inr c"
    and g: "getitem c (KInt idx) = Inr r"
    by (auto simp: resolve_part_def split: sum.splits)
  have nc: "\<not> is_str c" using g assms(2) by (cases c) (auto split: option.splits)
  have 1: "getitem (put_back ref (KStr (bracket_field p)) (put_back c (KInt idx) r')) (KStr (bracket_field p))
         = Inr (put_back c (KInt idx) r')"
    using put_back_getitem[OF c getitem_KStr_dict[OF c]] by simp
  have 2: "getitem (put_back c (KInt idx) r') (KInt idx) = Inr r'"
    using put_back_getitem[OF g nc] by simp
  show ?thesis using True i c 1 2 by (simp add: resolve_part_def put_part_def)
qed

lemma update_parts_walk: "update_parts ref ps v = Inr ref' \<Longrightarrow> walk ref' ps = Inr v"
proof (induction ref ps v arbitrary: ref' rule: update_parts.induct)
  case (1 ref v)
  then show ?case by simp
next
  case (2 ref p v)
  then show ?case using assign_part_resolve[of ref p v ref'] by simp
next
  case (3 ref p q ps v)
  from "3.prems" obtain r r' where
    r: "resolve_part ref p = Inr r" and u: "update_parts r (q # ps) v = Inr r'"
    and ref': "ref' = put_part ref p r'"
    by (auto split: sum.splits)
  have "\<not> is_str r" using u update_parts_str by (cases r) auto
  from put_part_resolve[OF r this, of r'] "3.IH"[OF r u] ref'
  show ?case by simp
qed

lemma update_then_read:
  "update_nested_field data_obj key_path v = Inr (True, d') \<Longrightarrow> read_nested_field d' key_path = Inr v"
  using update_parts_walk[of data_obj "split_on CHR ''.'' key_path" v d']
  by (auto simp: update_nested_field_def read_nested_field_def split: sum.splits if_splits)

section \<open>Properties of the Translation Checkpoint Loop\<close>

subsection \<open>Persistence\<close>




text \<open>
  The run effect by effect. The last state of an iteration is the one \<open>process_entry\<close>
  returns, and so with the loop.
\<close>

lemma process_entry_last:
  "process_entry decide prompt translate e s
     = last (s # process_entry_steps decide prompt translate e s)"
  by (cases e)
     (auto simp: process_entry_def process_entry_steps_def copy_entry_def persist_def
                 persist_steps_def Let_def split: action.splits reply.splits)

lemma run_steps_last:
  "run_entries decide prompt translate es s = last (s # run_steps decide prompt translate es s)"
proof (induction es arbitrary: s)
  case Nil
  then show ?case by simp
next
  case (Cons e es)
  from Cons[of "process_entry decide prompt translate e s"]
    process_entry_last[of decide prompt translate e s]
  show ?case by (simp add: last_append)
qed






subsection \<open>Resuming\<close>







subsection \<open>The pass-through predicates\<close>

lemma endswith_trans: "endswith k a \<Longrightarrow> endswith a b \<Longrightarrow> endswith k b"
proof -
  assume ka: "endswith k a" and ab: "endswith a b"
  from ka obtain p where k: "k = p @ a"
    unfolding endswith_def by (metis append_take_drop_id)
  from ab obtain q where a: "a = q @ b"
    unfolding endswith_def by (metis append_take_drop_id)
  show ?thesis unfolding endswith_def k a by simp
qed

lemma endswith_both: "endswith k a \<Longrightarrow> endswith k b \<Longrightarrow> length b \<le> length a \<Longrightarrow> endswith a b"
proof -
  assume ka: "endswith k a" and kb: "endswith k b" and l: "length b \<le> length a"
  from ka obtain p where k: "k = p @ a"
    unfolding endswith_def by (metis append_take_drop_id)
  from kb have "drop (length k - length b) k = b" by (simp add: endswith_def)
  with k l have "drop (length a - length b) a = b" by simp
  with l show ?thesis by (simp add: endswith_def)
qed

lemma endswith_last: "endswith k a \<Longrightarrow> a \<noteq> [] \<Longrightarrow> k \<noteq> [] \<and> last k = last a"
proof -
  assume ka: "endswith k a" and ne: "a \<noteq> []"
  from ka obtain p where k: "k = p @ a"
    unfolding endswith_def by (metis append_take_drop_id)
  with ne show ?thesis by simp
qed

lemma rows_label_not_dnd_area: "is_rows_label_key key \<Longrightarrow> \<not> is_dnd_area_label_key key"
proof
  assume "is_rows_label_key key" "is_dnd_area_label_key key"
  then have "endswith ''0.rows[0].0.label'' ''dnd_area.label''"
    unfolding is_rows_label_key_def is_dnd_area_label_key_def
    by (rule endswith_both) simp
  then show False by (simp add: endswith_def)
qed

lemma ends_dynamic_row_rows_label: "ends_dynamic_row key \<Longrightarrow> is_rows_label_key key"
proof -
  assume "ends_dynamic_row key"
  then have "endswith key ''].0.rows[0].0.label''" by (simp add: ends_dynamic_row_def)
  moreover have "endswith ''].0.rows[0].0.label'' ''0.rows[0].0.label''"
    by (simp add: endswith_def)
  ultimately show ?thesis unfolding is_rows_label_key_def by (rule endswith_trans)
qed

lemma dynamic_row_last:
  "is_exact_dynamic_row_pattern key \<Longrightarrow> key \<noteq> [] \<and> (last key = CHR ''l'' \<or> last key = CHR 0x0A)"
  unfolding is_exact_dynamic_row_pattern_def ends_dynamic_row_def
  using endswith_last[of key "''].0.rows[0].0.label''"] by auto

lemma content_type_not_dynamic_row: "is_content_type_key key \<Longrightarrow> \<not> is_exact_dynamic_row_pattern key"
proof
  assume c: "is_content_type_key key" and d: "is_exact_dynamic_row_pattern key"
  from c have "last key = CHR ''e''"
    unfolding is_content_type_key_def using endswith_last[of key "''.content_type''"] by simp
  with dynamic_row_last[OF d] show False by simp
qed

text \<open>
  C6 (as amended). For a key matched by both the exact dynamic-row predicate and the
  broader predicate \<open>is_rows_label_key\<close>, not yet in the translated mapping and with a
  value that is not placeholder text: gpt-translate.py evaluates the broader predicate
  first, so the entry is copied verbatim into the translated mapping and the file, with no
  external call; translate.py, which has the dynamic-row predicate only, skips the entry
  and writes nothing.
\<close>

theorem overlapping_row_predicates:
  assumes "is_exact_dynamic_row_pattern key" "is_rows_label_key key"
    "key \<notin> set (map fst (translated_content s))" "\<not> is_placeholder_text value"
  shows "process_entry gpt_decide gpt_prompt translate (key, value) s = copy_entry key value s
     \<and> map_of (translated_content (process_entry gpt_decide gpt_prompt translate (key, value) s)) key
          = Some value
     \<and> stored (process_entry gpt_decide gpt_prompt translate (key, value) s)
          = Stored (translated_content s @ [(key, value)])
     \<and> calls (process_entry gpt_decide gpt_prompt translate (key, value) s) = calls s
     \<and> process_entry gemini_decide gemini_prompt translate (key, value) s = s"
proof -
  have "gpt_decide (translated_content s) key value = Copy"
    using assms rows_label_not_dnd_area[OF assms(2)] by (simp add: gpt_decide_def)
  then have g: "process_entry gpt_decide gpt_prompt translate (key, value) s = copy_entry key value s"
    by (simp add: process_entry_def)
  have fresh: "dict_set (translated_content s) key value = translated_content s @ [(key, value)]"
    using assms(3) by (intro dict_set_fresh) simp
  have "gemini_decide (translated_content s) key value = Skip"
    using assms by (simp add: gemini_decide_def)
  then have m: "process_entry gemini_decide gemini_prompt translate (key, value) s = s"
    by (simp add: process_entry_def)
  have mo: "map_of (translated_content (copy_entry key value s)) key = Some value"
    by (simp add: copy_entry_def persist_def open_for_write_def json_dump_def map_of_dict_set)
  have st: "stored (copy_entry key value s) = Stored (translated_content s @ [(key, value)])"
    using fresh by (simp add: copy_entry_def persist_def open_for_write_def json_dump_def)
  have cl: "calls (copy_entry key value s) = calls s"
    by (simp add: copy_entry_def persist_def open_for_write_def json_dump_def)
  show ?thesis
    unfolding g m using mo st cl by simp
qed

theorem overlapping_row_predicates_witness:
  "is_exact_dynamic_row_pattern ''root.x.rows[3].0.rows[0].0.label''
   \<and> is_rows_label_key ''root.x.rows[3].0.rows[0].0.label''
   \<and> ''root.x.rows[3].0.rows[0].0.label'' \<notin> set (map fst (translated_content (initial_state Absent)))
   \<and> \<not> is_placeholder_text ''Row''
   \<and> map_of (translated_content (process_entry gpt_decide gpt_prompt (\<lambda>n p. Raises)
         (''root.x.rows[3].0.rows[0].0.label'', ''Row'') (initial_state Absent)))
        ''root.x.rows[3].0.rows[0].0.label'' = Some ''Row''
   \<and> process_entry gemini_decide gemini_prompt (\<lambda>n p. Raises)
         (''root.x.rows[3].0.rows[0].0.label'', ''Row'') (initial_state Absent) = initial_state Absent"
proof -
  have h1: "is_exact_dynamic_row_pattern ''root.x.rows[3].0.rows[0].0.label''" by code_simp
  have h2: "is_rows_label_key ''root.x.rows[3].0.rows[0].0.label''" by code_simp
  have h3: "''root.x.rows[3].0.rows[0].0.label'' \<notin> set (map fst (translated_content (initial_state Absent)))"
    by (simp add: initial_state_def)
  have h4: "\<not> is_placeholder_text ''Row''" by code_simp
  from overlapping_row_predicates[OF h1 h2 h3 h4, of "\<lambda>n p. Raises"] h1 h2 h3 h4
  show ?thesis by blast
qed

text \<open>
  As stated, C6 fails for gpt-translate.py: the key is written to the translated mapping.
\<close>

theorem dynamic_row_key_written_counterexample:
  "is_exact_dynamic_row_pattern ''root.x.rows[3].0.rows[0].0.label''
   \<and> is_rows_label_key ''root.x.rows[3].0.rows[0].0.label''
   \<and> gpt_translate (\<lambda>n p. Raises) [(''root.x.rows[3].0.rows[0].0.label'', ''Row'')] Absent
      = Inr (Finished,
          \<lparr>translated_content = [(''root.x.rows[3].0.rows[0].0.label'', ''Row'')],
           stored = Stored [(''root.x.rows[3].0.rows[0].0.label'', ''Row'')],
           backup = Absent, calls = [], translated_count = 0\<rparr>)"
  by code_simp

subsection \<open>Pass-through entries\<close>

lemma map_of_dict_set_other: "k \<noteq> k' \<Longrightarrow> map_of (dict_set d k' x) k = map_of d k"
  by (induction d) auto

lemma keys_dict_set: "set (map fst (dict_set d k v)) = insert k (set (map fst d))"
proof (induction d)
  case Nil
  then show ?case by simp
next
  case (Cons a d)
  obtain k' v' where a: "a = (k', v')" by (cases a)
  show ?case
  proof (cases "k' = k")
    case True
    with a show ?thesis by auto
  next
    case False
    with a have "set (map fst (dict_set (a # d) k v)) = insert k' (set (map fst (dict_set d k v)))"
      by simp
    also have "\<dots> = insert k' (insert k (set (map fst d)))" using Cons by simp
    finally show ?thesis using a by auto
  qed
qed

lemma process_entry_content:
  "translated_content (process_entry decide prompt translate e s) = translated_content s
   \<or> (decide (translated_content s) (fst e) (snd e) \<noteq> Skip
      \<and> (\<exists>v. translated_content (process_entry decide prompt translate e s)
               = dict_set (translated_content s) (fst e) v))"
  by (cases e)
     (auto simp: process_entry_def copy_entry_def persist_def open_for_write_def json_dump_def Let_def
           split: action.splits reply.splits)

lemma process_entry_keeps:
  assumes skip: "\<And>t k v. k \<in> set (map fst t) \<Longrightarrow> decide t k v = Skip"
    and "map_of (translated_content s) k = Some v"
  shows "map_of (translated_content (process_entry decide prompt translate e s)) k = Some v"
proof -
  have k: "k \<in> set (map fst (translated_content s))"
    using assms(2) by (auto dest: map_of_SomeD intro: rev_image_eqI)
  from process_entry_content[of decide prompt translate e s] show ?thesis
  proof
    assume "translated_content (process_entry decide prompt translate e s) = translated_content s"
    with assms(2) show ?thesis by simp
  next
    assume a: "decide (translated_content s) (fst e) (snd e) \<noteq> Skip
      \<and> (\<exists>v. translated_content (process_entry decide prompt translate e s)
               = dict_set (translated_content s) (fst e) v)"
    then have "fst e \<noteq> k" using skip[OF k, of "snd e"] by auto
    with a assms(2) show ?thesis by (auto simp: map_of_dict_set_other)
  qed
qed

lemma run_entries_keeps:
  assumes skip: "\<And>t k v. k \<in> set (map fst t) \<Longrightarrow> decide t k v = Skip"
  shows "map_of (translated_content s) k = Some v \<Longrightarrow>
         map_of (translated_content (run_entries decide prompt translate es s)) k = Some v"
proof (induction es arbitrary: s)
  case Nil
  then show ?case by simp
next
  case (Cons e es)
  from process_entry_keeps[OF skip Cons.prems, where prompt = prompt and translate = translate and e = e]
  show ?case using Cons.IH by simp
qed

lemma process_entry_fresh:
  "k \<notin> set (map fst (translated_content s)) \<Longrightarrow> fst e \<noteq> k \<Longrightarrow>
   k \<notin> set (map fst (translated_content (process_entry decide prompt translate e s)))"
proof -
  assume k: "k \<notin> set (map fst (translated_content s))" and ne: "fst e \<noteq> k"
  from process_entry_content[of decide prompt translate e s] show ?thesis
  proof
    assume "translated_content (process_entry decide prompt translate e s) = translated_content s"
    with k show ?thesis by simp
  next
    assume "decide (translated_content s) (fst e) (snd e) \<noteq> Skip
      \<and> (\<exists>v. translated_content (process_entry decide prompt translate e s)
               = dict_set (translated_content s) (fst e) v)"
    then obtain v where "translated_content (process_entry decide prompt translate e s)
               = dict_set (translated_content s) (fst e) v" by blast
    then show ?thesis using k ne keys_dict_set[of "translated_content s" "fst e" v] by auto
  qed
qed

lemma process_entry_copy:
  "decide (translated_content s) key value = Copy \<Longrightarrow>
   map_of (translated_content (process_entry decide prompt translate (key, value) s)) key = Some value"
  by (simp add: process_entry_def copy_entry_def persist_def open_for_write_def json_dump_def map_of_dict_set)

lemma run_entries_copies:
  assumes skip: "\<And>t k v. k \<in> set (map fst t) \<Longrightarrow> decide t k v = Skip"
    and copy: "\<And>t. key \<notin> set (map fst t) \<Longrightarrow> decide t key value = Copy"
  shows "distinct (map fst es) \<Longrightarrow> (key, value) \<in> set es \<Longrightarrow>
     key \<notin> set (map fst (translated_content s)) \<Longrightarrow>
     map_of (translated_content (run_entries decide prompt translate es s)) key = Some value"
proof (induction es arbitrary: s)
  case Nil
  then show ?case by simp
next
  case (Cons e es)
  show ?case
  proof (cases "e = (key, value)")
    case True
    have "map_of (translated_content (process_entry decide prompt translate (key, value) s)) key = Some value"
      using copy[OF Cons.prems(3)] by (rule process_entry_copy)
    from run_entries_keeps[OF skip this, where prompt = prompt and translate = translate and es = es]
      True show ?thesis by simp
  next
    case False
    with Cons.prems have m: "(key, value) \<in> set es" by simp
    then have "key \<in> fst ` set es" by (rule rev_image_eqI) simp
    with Cons.prems(1) have ne: "fst e \<noteq> key" by auto
    have d: "distinct (map fst es)" using Cons.prems(1) by simp
    from Cons.IH[OF d m process_entry_fresh[OF Cons.prems(3) ne]] show ?thesis by simp
  qed
qed

lemma process_entry_calls_translate:
  "c \<in> set (calls (process_entry decide prompt translate e s)) \<Longrightarrow>
   c \<in> set (calls s) \<or> (c = e \<and> decide (translated_content s) (fst e) (snd e) = Translate)"
  by (cases e)
     (auto simp: process_entry_def copy_entry_def persist_def open_for_write_def json_dump_def Let_def
           split: action.splits reply.splits if_splits)

lemma run_entries_calls_translate:
  "c \<in> set (calls (run_entries decide prompt translate es s)) \<Longrightarrow>
   c \<in> set (calls s) \<or> (\<exists>t. decide t (fst c) (snd c) = Translate)"
proof (induction es arbitrary: s)
  case Nil
  then show ?case by simp
next
  case (Cons e es)
  from Cons.IH[of "process_entry decide prompt translate e s"] Cons.prems
    process_entry_calls_translate[of c decide prompt translate e s]
  show ?case by auto
qed

lemma gpt_decide_present: "k \<in> set (map fst t) \<Longrightarrow> gpt_decide t k v = Skip"
  by (simp add: gpt_decide_def)

lemma gemini_decide_present: "k \<in> set (map fst t) \<Longrightarrow> gemini_decide t k v = Skip"
  by (simp add: gemini_decide_def)

lemma gpt_decide_copy:
  "is_dnd_area_label_key key \<or> is_rows_label_key key \<or> is_content_type_key key \<Longrightarrow>
   \<not> is_placeholder_text value \<Longrightarrow> key \<notin> set (map fst t) \<Longrightarrow> gpt_decide t key value = Copy"
  using content_type_not_dynamic_row[of key] by (auto simp: gpt_decide_def)

lemma gemini_decide_copy:
  "is_content_type_key key \<Longrightarrow> \<not> is_placeholder_text value \<Longrightarrow> key \<notin> set (map fst t) \<Longrightarrow>
   gemini_decide t key value = Copy"
  using content_type_not_dynamic_row[of key] by (auto simp: gemini_decide_def)

lemma gpt_decide_translate:
  "gpt_decide t key value = Translate \<Longrightarrow>
   \<not> is_dnd_area_label_key key \<and> \<not> is_rows_label_key key \<and> \<not> is_content_type_key key"
  by (auto simp: gpt_decide_def split: if_splits)

lemma gemini_decide_translate:
  "gemini_decide t key value = Translate \<Longrightarrow> \<not> is_content_type_key key"
  by (auto simp: gemini_decide_def split: if_splits)

lemma translate_script_finished:
  "translate_script decide prompt translate base_content file = Inr (Finished, s) \<Longrightarrow>
   s = run_entries decide prompt translate
         (drop (resume_index (map fst base_content) (map fst (load_translated file))) base_content)
         ((initial_state file)\<lparr>backup := file\<rparr>)"
  by (auto simp: translate_script_def Let_def initial_state_def split: if_splits)

lemma generic_pass_through:
  assumes skip: "\<And>t k v. k \<in> set (map fst t) \<Longrightarrow> decide t k v = Skip"
    and copy: "\<And>t. key \<notin> set (map fst t) \<Longrightarrow> decide t key value = Copy"
    and never: "\<And>t v. decide t key v \<noteq> Translate"
    and d: "distinct (map fst base_content)"
    and run: "translate_script decide prompt translate base_content file = Inr (Finished, s)"
    and pending: "(key, value) \<in> set (drop (resume_index (map fst base_content)
                       (map fst (load_translated file))) base_content)"
    and fresh: "key \<notin> set (map fst (load_translated file))"
  shows "map_of (translated_content s) key = Some value \<and> key \<notin> fst ` set (calls s)"
proof -
  let ?es = "drop (resume_index (map fst base_content) (map fst (load_translated file))) base_content"
  let ?s1 = "(initial_state file)\<lparr>backup := file\<rparr>"
  have s: "s = run_entries decide prompt translate ?es ?s1"
    using run by (rule translate_script_finished)
  have des: "distinct (map fst ?es)" using d by (simp add: drop_map[symmetric] distinct_drop)
  have f1: "key \<notin> set (map fst (translated_content ?s1))"
    using fresh by (simp add: initial_state_def)
  have 1: "map_of (translated_content s) key = Some value"
    unfolding s using skip copy des pending f1 by (rule run_entries_copies)
  have 2: "key \<notin> fst ` set (calls s)"
  proof
    assume "key \<in> fst ` set (calls s)"
    then obtain c where c: "c \<in> set (calls s)" "fst c = key" by auto
    from run_entries_calls_translate[OF c(1)[unfolded s]]
    have "\<exists>t. decide t (fst c) (snd c) = Translate" by (simp add: initial_state_def)
    with never c(2) show False by auto
  qed
  from 1 2 show ?thesis ..
qed

text \<open>
  C7 (as amended). Take a run of either script that reaches the loop, and a source entry at
  or after the resume index whose key matches a copying predicate of that script (a key
  ending in \<open>.content_type\<close>; in gpt-translate.py also one ending in \<open>dnd_area.label\<close> or
  \<open>0.rows[0].0.label\<close>), whose key is not in the translated mapping as loaded and whose
  value is not placeholder text. Then no external call is issued for that key, and the
  final translated mapping holds the key with its original value.
\<close>

theorem pass_through_entries:
  assumes "(run = gpt_translate translate
              \<and> (is_dnd_area_label_key key \<or> is_rows_label_key key \<or> is_content_type_key key))
           \<or> (run = gemini_translate translate \<and> is_content_type_key key)"
    and "distinct (map fst base_content)"
    and "run base_content file = Inr (Finished, s)"
    and "(key, value) \<in> set (drop (resume_index (map fst base_content)
                       (map fst (load_translated file))) base_content)"
    and "key \<notin> set (map fst (load_translated file))"
    and "\<not> is_placeholder_text value"
  shows "map_of (translated_content s) key = Some value \<and> key \<notin> fst ` set (calls s)"
  using assms(1)
proof
  assume a: "run = gpt_translate translate
              \<and> (is_dnd_area_label_key key \<or> is_rows_label_key key \<or> is_content_type_key key)"
  then have p: "is_dnd_area_label_key key \<or> is_rows_label_key key \<or> is_content_type_key key" by simp
  have run: "translate_script gpt_decide gpt_prompt translate base_content file = Inr (Finished, s)"
    using a assms(3) by (simp add: gpt_translate_def)
  show ?thesis
  proof (rule generic_pass_through[OF _ _ _ assms(2) run assms(4) assms(5)])
    show "\<And>t k v. k \<in> set (map fst t) \<Longrightarrow> gpt_decide t k v = Skip" by (rule gpt_decide_present)
    show "\<And>t. key \<notin> set (map fst t) \<Longrightarrow> gpt_decide t key value = Copy"
      using p assms(6) by (rule gpt_decide_copy)
    show "\<And>t v. gpt_decide t key v \<noteq> Translate"
      using p gpt_decide_translate by blast
  qed
next
  assume a: "run = gemini_translate translate \<and> is_content_type_key key"
  have run: "translate_script gemini_decide gemini_prompt translate base_content file = Inr (Finished, s)"
    using a assms(3) by (simp add: gemini_translate_def)
  show ?thesis
  proof (rule generic_pass_through[OF _ _ _ assms(2) run assms(4) assms(5)])
    show "\<And>t k v. k \<in> set (map fst t) \<Longrightarrow> gemini_decide t k v = Skip" by (rule gemini_decide_present)
    show "\<And>t. key \<notin> set (map fst t) \<Longrightarrow> gemini_decide t key value = Copy"
      using a assms(6) by (intro gemini_decide_copy) auto
    show "\<And>t v. gemini_decide t key v \<noteq> Translate"
      using a gemini_decide_translate by blast
  qed
qed

theorem pass_through_entries_witness:
  "distinct (map fst [(''root.a.content_type'', ''page''), (''root.b.title'', ''Hello'')])
   \<and> gemini_translate (\<lambda>n p. Reply ''HELLO'')
         [(''root.a.content_type'', ''page''), (''root.b.title'', ''Hello'')] Absent
       = Inr (Finished,
           \<lparr>translated_content = [(''root.a.content_type'', ''page''), (''root.b.title'', ''HELLO'')],
            stored = Stored [(''root.a.content_type'', ''page''), (''root.b.title'', ''HELLO'')],
            backup = Absent, calls = [(''root.b.title'', ''Hello'')], translated_count = 1\<rparr>)
   \<and> is_content_type_key ''root.a.content_type''
   \<and> \<not> is_placeholder_text ''page''
   \<and> map_of (translated_content
         \<lparr>translated_content = [(''root.a.content_type'', ''page''), (''root.b.title'', ''HELLO'')],
          stored = Stored [(''root.a.content_type'', ''page''), (''root.b.title'', ''HELLO'')],
          backup = Absent, calls = [(''root.b.title'', ''Hello'')], translated_count = 1\<rparr>)
        ''root.a.content_type'' = Some ''page''
   \<and> ''root.a.content_type'' \<notin> fst ` set (calls
         \<lparr>translated_content = [(''root.a.content_type'', ''page''), (''root.b.title'', ''HELLO'')],
          stored = Stored [(''root.a.content_type'', ''page''), (''root.b.title'', ''HELLO'')],
          backup = Absent, calls = [(''root.b.title'', ''Hello'')], translated_count = 1\<rparr>)"
proof -
  let ?B = "[(''root.a.content_type'', ''page''), (''root.b.title'', ''Hello'')]"
  let ?S = "\<lparr>translated_content = [(''root.a.content_type'', ''page''), (''root.b.title'', ''HELLO'')],
          stored = Stored [(''root.a.content_type'', ''page''), (''root.b.title'', ''HELLO'')],
          backup = Absent, calls = [(''root.b.title'', ''Hello'')], translated_count = 1\<rparr>"
  let ?run = "gemini_translate (\<lambda>n p. Reply ''HELLO'')"
  have c: "is_content_type_key ''root.a.content_type''" by code_simp
  have h1: "(?run = gpt_translate (\<lambda>n p. Reply ''HELLO'')
              \<and> (is_dnd_area_label_key ''root.a.content_type'' \<or> is_rows_label_key ''root.a.content_type''
                  \<or> is_content_type_key ''root.a.content_type''))
           \<or> (?run = gemini_translate (\<lambda>n p. Reply ''HELLO'') \<and> is_content_type_key ''root.a.content_type'')"
    using c by simp
  have h2: "distinct (map fst ?B)" by simp
  have h3: "?run ?B Absent = Inr (Finished, ?S)" by code_simp
  have h4: "(''root.a.content_type'', ''page'') \<in> set (drop (resume_index (map fst ?B)
                       (map fst (load_translated Absent))) ?B)"
    by (simp add: resume_index_def)
  have h5: "''root.a.content_type'' \<notin> set (map fst (load_translated Absent))" by simp
  have h6: "\<not> is_placeholder_text ''page''" by code_simp
  from pass_through_entries[OF h1 h2 h3 h4 h5 h6] h2 h3 c h6 show ?thesis by blast
qed

text \<open>
  As stated, C7 fails: the placeholder check comes before the copying predicates, so a
  \<open>.content_type\<close> entry whose value is placeholder text is skipped and never appears in
  the translated mapping.
\<close>

theorem pass_through_counterexample:
  "is_content_type_key ''root.a.content_type''
   \<and> gpt_translate (\<lambda>n p. Reply ''HELLO'') [(''root.a.content_type'', ''Lorem ipsum dolor'')] Absent
       = Inr (Finished, \<lparr>translated_content = [], stored = Absent, backup = Absent,
                         calls = [], translated_count = 0\<rparr>)
   \<and> gemini_translate (\<lambda>n p. Reply ''HELLO'') [(''root.a.content_type'', ''Lorem ipsum dolor'')] Absent
       = Inr (Finished, \<lparr>translated_content = [], stored = Absent, backup = Absent,
                         calls = [], translated_count = 0\<rparr>)"
  by code_simp

subsection \<open>A second run\<close>













subsection \<open>The dynamic-row pattern\<close>

lemma endswith_iff_append: "endswith s p \<longleftrightarrow> (\<exists>q. s = q @ p)"
proof
  assume "endswith s p"
  then show "\<exists>q. s = q @ p" unfolding endswith_def by (metis append_take_drop_id)
next
  assume "\<exists>q. s = q @ p"
  then show "endswith s p" by (auto simp: endswith_def)
qed

lemma trailing_digits:
  "list_all is_digit ds \<Longrightarrow> \<not> is_digit c \<Longrightarrow>
   rev (takeWhile is_digit (rev (q @ c # ds))) = ds"
proof -
  assume all: "list_all is_digit ds" and c: "\<not> is_digit c"
  have "takeWhile is_digit (rev ds @ c # rev q) = rev ds @ takeWhile is_digit (c # rev q)"
    using all by (intro takeWhile_append2) (simp add: list_all_iff)
  with c show ?thesis by simp
qed

text \<open>
  \<open>ends_dynamic_row\<close> is the meaning of the pattern
  \<open>\.rows\[\d+\]\.0\.rows\[0\]\.0\.label\<close> anchored at the end of the text.
\<close>

lemma ends_dynamic_row_iff:
  "ends_dynamic_row s \<longleftrightarrow>
     (\<exists>pre ds. ds \<noteq> [] \<and> list_all is_digit ds
        \<and> s = pre @ ''.rows['' @ ds @ ''].0.rows[0].0.label'')"
proof
  assume a: "ends_dynamic_row s"
  let ?suf = "''].0.rows[0].0.label''"
  from a have "endswith s ?suf" by (simp add: ends_dynamic_row_def)
  then obtain body where s: "s = body @ ?suf" by (auto simp: endswith_iff_append)
  define ds where "ds = rev (takeWhile is_digit (rev body))"
  define front where "front = rev (dropWhile is_digit (rev body))"
  have body: "body = front @ ds"
    unfolding front_def ds_def by (metis rev_append rev_rev_ident takeWhile_dropWhile_id)
  have all: "list_all is_digit ds"
    unfolding ds_def list_all_iff by (auto dest: set_takeWhileD)
  have tk: "take (length s - length ?suf) s = body" using s by simp
  have fr: "take (length body - length ds) body = front" using body by simp
  from a have "ds \<noteq> []" "endswith front ''.rows[''"
    unfolding ends_dynamic_row_def Let_def tk ds_def[symmetric] fr by auto
  then obtain pre where "front = pre @ ''.rows[''" by (auto simp: endswith_iff_append)
  with s body \<open>ds \<noteq> []\<close> all
  show "\<exists>pre ds. ds \<noteq> [] \<and> list_all is_digit ds \<and> s = pre @ ''.rows['' @ ds @ ''].0.rows[0].0.label''"
    by auto
next
  assume "\<exists>pre ds. ds \<noteq> [] \<and> list_all is_digit ds \<and> s = pre @ ''.rows['' @ ds @ ''].0.rows[0].0.label''"
  then obtain pre ds where ne: "ds \<noteq> []" and all: "list_all is_digit ds"
    and s0: "s = pre @ ''.rows['' @ ds @ ''].0.rows[0].0.label''" by blast
  define suf where "suf = ''].0.rows[0].0.label''"
  define opn where "opn = ''.rows[''"
  have s: "s = ((pre @ opn) @ ds) @ suf" using s0 by (simp add: suf_def opn_def)
  have e: "endswith s suf" unfolding endswith_iff_append s by blast
  have tk: "take (length s - length suf) s = (pre @ opn) @ ds" unfolding s by simp
  have "pre @ opn = (pre @ ''.rows'') @ [CHR ''['']" by (simp add: opn_def)
  moreover have "\<not> is_digit CHR ''[''" by (simp add: is_digit_def)
  ultimately have dg: "rev (takeWhile is_digit (rev ((pre @ opn) @ ds))) = ds"
    using trailing_digits[OF all, of "CHR ''[''" "pre @ ''.rows''"] by simp
  have fr: "take (length ((pre @ opn) @ ds) - length ds) ((pre @ opn) @ ds) = pre @ opn" by simp
  have "endswith (pre @ opn) opn" unfolding endswith_iff_append by blast
  with e ne show "ends_dynamic_row s"
    unfolding ends_dynamic_row_def Let_def suf_def[symmetric] opn_def[symmetric] tk dg fr by simp
qed

section \<open>Properties of the start of the scripts\<close>

text \<open>
  C9. The claim does not hold of scripts/get-content.py: with neither
  \<open>HUBSPOT_API_KEY\<close> nor \<open>PAGE_ID\<close> in the environment its first effect is the request
  itself, sent for the page \<open>None\<close> with the credential \<open>None\<close>; nothing is validated
  before it. The sibling scripts/holiday-page-scripts/update-content.py does what the claim
  says: with the same environment it prints its messages and returns without reaching the
  rest of \<open>main\<close>.
\<close>

theorem get_content_requests_without_credentials:
  "hd (get_content_start (\<lambda>name. None) http_get)
     = HttpGet ''https://api.hubapi.com/cms/v3/pages/site-pages/None'' ''Bearer None''
   \<and> holiday_update_main (\<lambda>name. None) rest
     = [Print ''HubSpot Page Content Updater'', Print (replicate 50 CHR ''=''),
        Print ''HUBSPOT_API_KEY not found in .env file'',
        Print ([CHR 0x0A] @ ''Make sure your .env file has:''),
        Print ''   HUBSPOT_API_KEY=your_api_key'',
        Print ''   PAGE_ID=your_page_id'']"
  by (simp add: get_content_start_def holiday_update_main_def validate_environment_def Let_def)

end
